theory Spec2Isabelle
  imports Main "HOL-Library.Word"
begin

unbundle bit_operations_syntax

section \<open>Data model of src/src/writer.js\<close>

text \<open>
  A byte buffer (\<open>Uint8Array\<close> or node \<open>Buffer\<close>) is a list of bytes; a store into it
  keeps the low eight bits of the number stored. A JavaScript number argument is an
  \<open>int\<close>; \<open>>>> 0\<close> and the operands of \<open><<\<close>, \<open>>>\<close>, \<open>|\<close>, \<open>&\<close>, \<open>^\<close> reduce it
  modulo \<open>2 ^ 32\<close>, which is \<open>word_of_int\<close> into \<open>32 word\<close>.

  Buffers are modelled by value. The source shares memory between a buffer and the
  results of \<open>slice\<close>/\<open>subarray\<close>, but the sealed prefix \<open>[0, pos)\<close> and the remainder
  \<open>[pos, len)\<close> are disjoint and a sealed prefix is never written again, so no write is
  visible through an alias.
\<close>

type_synonym byte = "8 word"
type_synonym u32 = "32 word"

text \<open>
  The exceptions: \<open>TypeError\<close> and \<open>RangeError\<close> of the language, \<open>InvalidValue\<close> for a
  value the 64-bit helper cannot take.
\<close>

datatype error = TypeError | RangeError | InvalidValue

text \<open>The two constructors: \<open>Writer\<close> (typed arrays) and \<open>BufferWriter\<close> (node buffers).\<close>

datatype variant = Writer | BufferWriter

text \<open>
  The fields set by the constructor \<open>Writer()\<close>. \<open>stack\<close> is \<open>_stack\<close> with the top of
  the stack (the end of the JavaScript array) at the head of the list; \<open>slice_fn\<close> tells
  whether \<open>_slice\<close> holds a function (it is \<open>null\<close> until the first \<open>expand\<close>).
\<close>

record writer =
  buf :: "byte list option"
  pos :: nat
  len :: nat
  bufs :: "byte list list"
  stack :: "byte list list list"
  slice_fn :: bool

definition new_writer :: writer where
  "new_writer = \<lparr>buf = None, pos = 0, len = 0, bufs = [], stack = [], slice_fn = False\<rparr>"

text \<open>What \<open>finish\<close> hands back: \<open>null\<close> or a byte sequence.\<close>

datatype ret = Null | Bytes "byte list"

text \<open>Sequencing of steps that may throw: the first exception ends the run.\<close>

definition thenE :: "error + 'a \<Rightarrow> ('a \<Rightarrow> error + 'b) \<Rightarrow> error + 'b" where
  "thenE m f = (case m of Inl e \<Rightarrow> Inl e | Inr x \<Rightarrow> f x)"

section \<open>Buffer primitives\<close>

text \<open>
  \<open>Writer.alloc\<close> and \<open>BufferWriter.alloc\<close>: a zero-filled buffer of the given size
  (\<open>emptyBuffer\<close> for size 0). The legacy branch \<open>new util.Buffer(size)\<close> leaves the
  content unspecified; no operation reads a byte at or beyond \<open>pos\<close>.
\<close>

definition alloc :: "variant \<Rightarrow> nat \<Rightarrow> byte list" where
  "alloc v sz = (case v of Writer \<Rightarrow> (if sz \<noteq> 0 then replicate sz 0 else [])
                        | BufferWriter \<Rightarrow> replicate sz 0)"

text \<open>
  \<open>writer._slice.call(b, i, j)\<close> and \<open>writer._slice.call(b, i)\<close>: calling \<open>null\<close>, or
  calling the typed-array method on \<open>null\<close>, throws a TypeError; the indices are clamped
  to the length of the buffer.
\<close>

definition slice2 :: "writer \<Rightarrow> byte list option \<Rightarrow> nat \<Rightarrow> nat \<Rightarrow> error + byte list" where
  "slice2 w b i j =
     (if \<not> slice_fn w then Inl TypeError
      else case b of None \<Rightarrow> Inl TypeError | Some xs \<Rightarrow> Inr (take (j - i) (drop i xs)))"

definition slice1 :: "writer \<Rightarrow> byte list option \<Rightarrow> nat \<Rightarrow> error + byte list" where
  "slice1 w b i =
     (if \<not> slice_fn w then Inl TypeError
      else case b of None \<Rightarrow> Inl TypeError | Some xs \<Rightarrow> Inr (drop i xs))"

text \<open>
  \<open>target.set(source, offset)\<close> of a typed array: a \<open>null\<close> source throws a TypeError,
  a source that does not fit throws a RangeError.
\<close>

definition set_bytes :: "byte list \<Rightarrow> byte list option \<Rightarrow> nat \<Rightarrow> error + byte list" where
  "set_bytes target source offset =
     (case source of
        None \<Rightarrow> Inl TypeError
      | Some src \<Rightarrow>
          if length src + offset > length target then Inl RangeError
          else Inr (take offset target @ src @ drop (offset + length src) target))"

text \<open>
  \<open>source.copy(target, targetStart)\<close> of a node buffer: copies as many bytes as fit and
  does not throw.
\<close>

definition copy_bytes :: "byte list \<Rightarrow> byte list \<Rightarrow> nat \<Rightarrow> byte list" where
  "copy_bytes source target targetStart =
     take targetStart target @ take (length target - targetStart) source
       @ drop (targetStart + length source) target"

text \<open>\<open>this.buf[this.pos++] = x\<close>: a typed array ignores a store outside its range.\<close>

definition store :: "byte \<Rightarrow> writer \<Rightarrow> error + writer" where
  "store x w =
     (case buf w of
        None \<Rightarrow> Inl TypeError
      | Some b \<Rightarrow> Inr (w\<lparr>buf := Some (b[pos w := x]), pos := pos w + 1\<rparr>))"

text \<open>A list of stores, one after the other.\<close>

fun emit :: "byte list \<Rightarrow> writer \<Rightarrow> error + writer" where
  "emit [] w = Inr w"
| "emit (x # xs) w = thenE (store x w) (emit xs)"

section \<open>Buffer growth\<close>

text \<open>\<open>expand(writer, writeLength)\<close>; \<open>bsz\<close> is the current value of \<open>Writer.BUFFER_SIZE\<close>.\<close>

definition expand :: "variant \<Rightarrow> nat \<Rightarrow> writer \<Rightarrow> nat \<Rightarrow> error + writer" where
  "expand v bsz w writeLength =
     thenE (if pos w \<noteq> 0
            then thenE (slice2 w (buf w) 0 (pos w)) (\<lambda>c. Inr (w\<lparr>bufs := bufs w @ [c]\<rparr>))
            else Inr w)
       (\<lambda>w1. let n = max writeLength bsz
             in Inr (w1\<lparr>len := n, buf := Some (alloc v n), pos := 0, slice_fn := True\<rparr>))"

text \<open>The guard every write starts with: \<open>if (this.pos + n > this.len) expand(this, n)\<close>.\<close>

definition ensure :: "variant \<Rightarrow> nat \<Rightarrow> nat \<Rightarrow> writer \<Rightarrow> error + writer" where
  "ensure v bsz n w = (if pos w + n > len w then expand v bsz w n else Inr w)"

section \<open>Scalar encoders\<close>

text \<open>The byte \<open>id << 3 | wireType & 7\<close> that \<open>write_tag\<close> stores.\<close>

definition tag_byte :: "int \<Rightarrow> int \<Rightarrow> byte" where
  "tag_byte id' wireType =
     ucast (push_bit 3 (word_of_int id' :: u32) OR ((word_of_int wireType :: u32) AND 7))"

definition write_tag :: "variant \<Rightarrow> nat \<Rightarrow> int \<Rightarrow> int \<Rightarrow> writer \<Rightarrow> error + writer" where
  "write_tag v bsz id' wireType w = thenE (ensure v bsz 1 w) (store (tag_byte id' wireType))"

text \<open>
  The loop of \<open>write_uint32\<close>:
  \<open>while (value > 127) { buf[pos++] = value | 128; value >>>= 7; } buf[pos++] = value\<close>.
\<close>

function varint_loop :: "u32 \<Rightarrow> writer \<Rightarrow> error + writer" where
  "varint_loop val w =
     (if val > 127
      then thenE (store (ucast (val OR 128)) w) (varint_loop (drop_bit 7 val))
      else store (ucast val) w)"
  by pat_completeness auto
termination
proof (relation "measure (\<lambda>(val, w). unat val)")
  show "wf (measure (\<lambda>(val :: u32, w :: writer). unat val))"
    by simp
next
  fix val :: u32 and w x :: writer
  assume "127 < val"
  then have "val \<noteq> 0"
    by auto
  then have "0 < unat val"
    by (simp add: unat_gt_0)
  then have "unat val div 2 ^ 7 < unat val"
    by simp
  then show "((drop_bit 7 val, x), (val, w)) \<in> measure (\<lambda>(val, w). unat val)"
    by (simp add: drop_bit_eq_div unat_div)
qed

declare varint_loop.simps [simp del]

text \<open>The byte count \<open>write_uint32\<close> computes before its capacity check.\<close>

definition varint_len :: "u32 \<Rightarrow> nat" where
  "varint_len val =
     (if val < 128 then 1
      else if val < 16384 then 2
      else if val < 2097152 then 3
      else if val < 268435456 then 4
      else 5)"

definition write_uint32 :: "variant \<Rightarrow> nat \<Rightarrow> int \<Rightarrow> writer \<Rightarrow> error + writer" where
  "write_uint32 v bsz value w =
     (let val = (word_of_int value :: u32)
      in thenE (ensure v bsz (varint_len val) w) (varint_loop val))"

text \<open>\<open>WriterPrototype.int32 = WriterPrototype.uint32\<close>.\<close>

definition write_int32 :: "variant \<Rightarrow> nat \<Rightarrow> int \<Rightarrow> writer \<Rightarrow> error + writer" where
  "write_int32 = write_uint32"

text \<open>The expression \<open>value << 1 ^ value >> 31\<close> on the 32-bit pattern of \<open>value\<close>.\<close>

definition zigzag32 :: "u32 \<Rightarrow> u32" where
  "zigzag32 x = push_bit 1 x XOR signed_drop_bit 31 x"

definition write_sint32 :: "variant \<Rightarrow> nat \<Rightarrow> int \<Rightarrow> writer \<Rightarrow> error + writer" where
  "write_sint32 v bsz value w = write_uint32 v bsz (sint (zigzag32 (word_of_int value))) w"

definition write_bool :: "variant \<Rightarrow> nat \<Rightarrow> bool \<Rightarrow> writer \<Rightarrow> error + writer" where
  "write_bool v bsz value w = thenE (ensure v bsz 1 w) (store (if value then 1 else 0))"

definition write_fixed32 :: "variant \<Rightarrow> nat \<Rightarrow> int \<Rightarrow> writer \<Rightarrow> error + writer" where
  "write_fixed32 v bsz value w =
     thenE (ensure v bsz 4 w) (\<lambda>w0.
       let val = (word_of_int value :: u32)
       in thenE (store (ucast val) w0) (\<lambda>w1.
          thenE (store (ucast (drop_bit 8 val)) w1) (\<lambda>w2.
          thenE (store (ucast (drop_bit 16 val)) w2) (\<lambda>w3.
          store (ucast (drop_bit 24 val)) w3))))"

definition write_sfixed32 :: "variant \<Rightarrow> nat \<Rightarrow> int \<Rightarrow> writer \<Rightarrow> error + writer" where
  "write_sfixed32 v bsz value w = write_fixed32 v bsz (sint (zigzag32 (word_of_int value))) w"

text \<open>\<open>write_bytes\<close> of \<open>Writer\<close> and \<open>write_bytes_buffer\<close> of \<open>BufferWriter\<close>.\<close>

definition write_bytes :: "variant \<Rightarrow> nat \<Rightarrow> byte list \<Rightarrow> writer \<Rightarrow> error + writer" where
  "write_bytes v bsz value w =
     (let n = length value
      in thenE (write_uint32 v bsz (int n) w) (\<lambda>w1.
           if n \<noteq> 0
           then thenE (ensure v bsz n w1) (\<lambda>w2.
                  case buf w2 of
                    None \<Rightarrow> Inl TypeError
                  | Some b \<Rightarrow>
                      thenE (set_bytes b (Some value) (pos w2)) (\<lambda>b'.
                        Inr (w2\<lparr>buf := Some b', pos := pos w2 + n\<rparr>)))
           else Inr w1))"

definition write_bytes_buffer :: "variant \<Rightarrow> nat \<Rightarrow> byte list \<Rightarrow> writer \<Rightarrow> error + writer" where
  "write_bytes_buffer v bsz value w =
     (let n = length value
      in thenE (write_uint32 v bsz (int n) w) (\<lambda>w1.
         thenE (ensure v bsz n w1) (\<lambda>w2.
           case buf w2 of
             None \<Rightarrow> Inl TypeError
           | Some b \<Rightarrow> Inr (w2\<lparr>buf := Some (copy_bytes value b (pos w2)), pos := pos w2 + n\<rparr>))))"

section \<open>Writes that call helper modules\<close>

text \<open>
  The 64-bit, float and string writes call \<open>./support/long\<close>, \<open>./support/float\<close>,
  \<open>./support/string\<close> and the node \<open>Buffer\<close> methods, whose code is not part of
  writer.js. What those compute is taken as a parameter: \<open>long_set\<close> is \<open>long_._set\<close>
  (it may throw), \<open>long_zigZagEncode\<close> is \<open>_zigZagEncode\<close>, \<open>long_varint\<close> and
  \<open>long_fixed\<close> are the bytes \<open>_write\<close> and \<open>_writeFixed\<close> store, \<open>float_bytes\<close> the
  bytes \<open>float_._write(writer, value, n)\<close> stores, \<open>string_encode\<close> is
  \<open>string_._encode\<close>, \<open>buffer_float\<close> and \<open>buffer_double\<close> are the bytes
  \<open>writeFloatLE\<close> and \<open>writeDoubleLE\<close> store, and \<open>buffer_utf8\<close> the bytes that
  \<open>Buffer.byteLength\<close> counts and \<open>buf.write\<close> stores. The type variables stand for
  the JavaScript values passed in and for the helper's 64-bit value.
\<close>

record ('l, 'L, 'f, 's) helpers =
  long_set :: "'l \<Rightarrow> error + 'L"
  long_zigZagEncode :: "'L \<Rightarrow> 'L"
  long_varint :: "'L \<Rightarrow> byte list"
  long_fixed :: "'L \<Rightarrow> byte list"
  float_bytes :: "'f \<Rightarrow> nat \<Rightarrow> byte list"
  string_encode :: "'s \<Rightarrow> byte list"
  buffer_float :: "'f \<Rightarrow> byte list"
  buffer_double :: "'f \<Rightarrow> byte list"
  buffer_utf8 :: "'s \<Rightarrow> byte list"

text \<open>
  Modelled from the spec: \<open>_write(writer, expand)\<close> of the 64-bit helper, which is not
  part of writer.js. A scalar write first calls the buffer-growth primitive with the exact
  byte count it is about to emit, then writes into the active buffer and advances the
  position.
\<close>

definition long_write ::
  "('l, 'L, 'f, 's) helpers \<Rightarrow> variant \<Rightarrow> nat \<Rightarrow> 'L \<Rightarrow> writer \<Rightarrow> error + writer" where
  "long_write h v bsz x w =
     thenE (ensure v bsz (length (long_varint h x)) w) (emit (long_varint h x))"

text \<open>
  Modelled from the spec: \<open>_writeFixed(writer)\<close> of the 64-bit helper, which is not part
  of writer.js. It stores its bytes from the position on; the caller has reserved 8 bytes.
\<close>

definition long_writeFixed :: "('l, 'L, 'f, 's) helpers \<Rightarrow> 'L \<Rightarrow> writer \<Rightarrow> error + writer" where
  "long_writeFixed h x w = emit (long_fixed h x) w"

text \<open>
  Modelled from the spec: \<open>_write(writer, value, n)\<close> of the float helper, which is not
  part of writer.js. It stores its bytes from the position on; the caller has reserved
  \<open>n\<close> bytes.
\<close>

definition float_write ::
  "('l, 'L, 'f, 's) helpers \<Rightarrow> 'f \<Rightarrow> nat \<Rightarrow> writer \<Rightarrow> error + writer" where
  "float_write h value n w = emit (float_bytes h value n) w"

text \<open>
  \<open>write_uint64\<close>, \<open>int64\<close> (the same function), \<open>sint64\<close>, \<open>write_fixed64\<close>,
  \<open>write_sfixed64\<close>, \<open>write_float\<close>, \<open>write_double\<close> and \<open>write_string\<close> of
  \<open>Writer\<close>.
\<close>

definition write_uint64 ::
  "('l, 'L, 'f, 's) helpers \<Rightarrow> variant \<Rightarrow> nat \<Rightarrow> 'l \<Rightarrow> writer \<Rightarrow> error + writer" where
  "write_uint64 h v bsz value w = thenE (long_set h value) (\<lambda>x. long_write h v bsz x w)"

definition write_int64 ::
  "('l, 'L, 'f, 's) helpers \<Rightarrow> variant \<Rightarrow> nat \<Rightarrow> 'l \<Rightarrow> writer \<Rightarrow> error + writer" where
  "write_int64 = write_uint64"

definition sint64 ::
  "('l, 'L, 'f, 's) helpers \<Rightarrow> variant \<Rightarrow> nat \<Rightarrow> 'l \<Rightarrow> writer \<Rightarrow> error + writer" where
  "sint64 h v bsz value w =
     thenE (long_set h value) (\<lambda>x. long_write h v bsz (long_zigZagEncode h x) w)"

definition write_fixed64 ::
  "('l, 'L, 'f, 's) helpers \<Rightarrow> variant \<Rightarrow> nat \<Rightarrow> 'l \<Rightarrow> writer \<Rightarrow> error + writer" where
  "write_fixed64 h v bsz value w =
     thenE (ensure v bsz 8 w) (\<lambda>w1.
       thenE (long_set h value) (\<lambda>x. long_writeFixed h x w1))"

definition write_sfixed64 ::
  "('l, 'L, 'f, 's) helpers \<Rightarrow> variant \<Rightarrow> nat \<Rightarrow> 'l \<Rightarrow> writer \<Rightarrow> error + writer" where
  "write_sfixed64 h v bsz value w =
     thenE (ensure v bsz 8 w) (\<lambda>w1.
       thenE (long_set h value) (\<lambda>x. long_writeFixed h (long_zigZagEncode h x) w1))"

definition write_float ::
  "('l, 'L, 'f, 's) helpers \<Rightarrow> variant \<Rightarrow> nat \<Rightarrow> 'f \<Rightarrow> writer \<Rightarrow> error + writer" where
  "write_float h v bsz value w = thenE (ensure v bsz 4 w) (float_write h value 4)"

definition write_double ::
  "('l, 'L, 'f, 's) helpers \<Rightarrow> variant \<Rightarrow> nat \<Rightarrow> 'f \<Rightarrow> writer \<Rightarrow> error + writer" where
  "write_double h v bsz value w = thenE (ensure v bsz 8 w) (float_write h value 8)"

definition write_string ::
  "('l, 'L, 'f, 's) helpers \<Rightarrow> variant \<Rightarrow> nat \<Rightarrow> 's \<Rightarrow> writer \<Rightarrow> error + writer" where
  "write_string h v bsz value w = write_bytes v bsz (string_encode h value) w"

text \<open>
  \<open>write_float_buffer\<close>, \<open>write_double_buffer\<close> and \<open>write_string_buffer\<close> of
  \<open>BufferWriter\<close>. \<open>writeFloatLE\<close> and \<open>writeDoubleLE\<close> are called without bounds
  checks and \<open>buf.write\<close> stores as many bytes as fit.
\<close>

definition write_float_buffer ::
  "('l, 'L, 'f, 's) helpers \<Rightarrow> variant \<Rightarrow> nat \<Rightarrow> 'f \<Rightarrow> writer \<Rightarrow> error + writer" where
  "write_float_buffer h v bsz value w =
     thenE (ensure v bsz 4 w) (\<lambda>w1.
       case buf w1 of
         None \<Rightarrow> Inl TypeError
       | Some b \<Rightarrow>
           Inr (w1\<lparr>buf := Some (copy_bytes (buffer_float h value) b (pos w1)),
                   pos := pos w1 + 4\<rparr>))"

definition write_double_buffer ::
  "('l, 'L, 'f, 's) helpers \<Rightarrow> variant \<Rightarrow> nat \<Rightarrow> 'f \<Rightarrow> writer \<Rightarrow> error + writer" where
  "write_double_buffer h v bsz value w =
     thenE (ensure v bsz 8 w) (\<lambda>w1.
       case buf w1 of
         None \<Rightarrow> Inl TypeError
       | Some b \<Rightarrow>
           Inr (w1\<lparr>buf := Some (copy_bytes (buffer_double h value) b (pos w1)),
                   pos := pos w1 + 8\<rparr>))"

definition write_string_buffer ::
  "('l, 'L, 'f, 's) helpers \<Rightarrow> variant \<Rightarrow> nat \<Rightarrow> 's \<Rightarrow> writer \<Rightarrow> error + writer" where
  "write_string_buffer h v bsz value w =
     (let n = length (buffer_utf8 h value)
      in thenE (write_uint32 v bsz (int n) w) (\<lambda>w1.
         thenE (ensure v bsz n w1) (\<lambda>w2.
           case buf w2 of
             None \<Rightarrow> Inl TypeError
           | Some b \<Rightarrow>
               Inr (w2\<lparr>buf := Some (copy_bytes (buffer_utf8 h value) b (pos w2)),
                       pos := pos w2 + n\<rparr>))))"

section \<open>Fork, reset, finish\<close>

definition fork :: "writer \<Rightarrow> error + writer" where
  "fork w =
     (if buf w \<noteq> None \<and> pos w \<noteq> 0
      then thenE
             (if pos w < len w
              then thenE (slice2 w (buf w) 0 (pos w)) (\<lambda>c.
                   thenE (slice1 w (buf w) (pos w)) (\<lambda>remain.
                     Inr (w\<lparr>bufs := bufs w @ [c], len := length remain\<rparr>, Some remain)))
              else Inr (w\<lparr>bufs := bufs w @ [the (buf w)], len := 0\<rparr>, None))
             (\<lambda>(w1, remain).
                Inr (w1\<lparr>stack := bufs w1 # stack w1, bufs := [], buf := remain, pos := 0\<rparr>))
      else Inr w)"

definition reset :: "bool \<Rightarrow> writer \<Rightarrow> writer" where
  "reset clearForkedStates w =
     (let w1 = (if stack w \<noteq> []
                then (if clearForkedStates then w\<lparr>bufs := []\<rparr>
                      else w\<lparr>bufs := hd (stack w), stack := tl (stack w)\<rparr>)
                else w\<lparr>bufs := []\<rparr>)
      in w1\<lparr>buf := None, pos := 0, len := 0\<rparr>)"

text \<open>The second loop of \<open>finish\<close>: \<open>concat.set(sub = bufs[i++], pos); pos += sub.length\<close>.\<close>

fun set_chunks :: "byte list \<Rightarrow> byte list list \<Rightarrow> nat \<Rightarrow> error + (byte list \<times> nat)" where
  "set_chunks concat' [] p = Inr (concat', p)"
| "set_chunks concat' (sub # rest) p =
     thenE (set_bytes concat' (Some sub) p) (\<lambda>c. set_chunks c rest (p + length sub))"

text \<open>
  \<open>finish\<close> of \<open>Writer\<close>. The state is reset before the result is computed; an exception
  ends the run.
\<close>

definition finish :: "bool \<Rightarrow> writer \<Rightarrow> error + (ret \<times> writer)" where
  "finish clearForkedStates w =
     (let bufs0 = bufs w; buf0 = buf w; pos0 = pos w; len0 = len w;
          w' = reset clearForkedStates w
      in thenE (if buf0 \<noteq> None \<and> pos0 < len0
                then (if pos0 \<noteq> 0
                      then thenE (slice2 w' buf0 0 pos0) (\<lambda>c. Inr (Some c))
                      else Inr (Some []))
                else Inr buf0) (\<lambda>buf1.
           if bufs0 = []
           then Inr (case buf1 of None \<Rightarrow> Null | Some b \<Rightarrow> Bytes b, w')
           else
             let len1 = fold (\<lambda>c n. n + length c) bufs0 pos0;
                 concat0 = alloc Writer len1
             in thenE (set_chunks concat0 bufs0 0) (\<lambda>(concat1, pos1).
                thenE (set_bytes concat1 buf1 pos1) (\<lambda>concat2.
                  Inr (Bytes concat2, w')))))"

text \<open>
  \<open>finish_buffer\<close> of \<open>BufferWriter\<close>: \<open>buf.slice(0, pos)\<close> on \<open>null\<close> throws a TypeError;
  \<open>util.Buffer.concat\<close> joins the chunks.
\<close>

definition finish_buffer :: "bool \<Rightarrow> writer \<Rightarrow> error + (ret \<times> writer)" where
  "finish_buffer clearForkedStates w =
     (let bufs0 = bufs w; buf0 = buf w; pos0 = pos w;
          w' = reset clearForkedStates w
      in if bufs0 = []
         then (case buf0 of
                 None \<Rightarrow> Inl TypeError
               | Some b \<Rightarrow> Inr (Bytes (take pos0 b), w'))
         else thenE (if pos0 \<noteq> 0
                     then (case buf0 of
                             None \<Rightarrow> Inl TypeError
                           | Some b \<Rightarrow> Inr (bufs0 @ [take pos0 b]))
                     else Inr bufs0) (\<lambda>bufs1.
                Inr (Bytes (concat bufs1), w')))"

section \<open>Operations as data\<close>

text \<open>
  The writes whose code lies entirely in writer.js.
\<close>

datatype wop =
    Tag int int | Uint32 int | Int32 int | Sint32 int | Bool bool
  | Fixed32 int | Sfixed32 int | BytesOp "byte list"

text \<open>Method dispatch: \<open>BufferWriter\<close> overrides \<open>bytes\<close> and \<open>finish\<close>.\<close>

fun write_op :: "variant \<Rightarrow> nat \<Rightarrow> wop \<Rightarrow> writer \<Rightarrow> error + writer" where
  "write_op v bsz (Tag i t) w = write_tag v bsz i t w"
| "write_op v bsz (Uint32 x) w = write_uint32 v bsz x w"
| "write_op v bsz (Int32 x) w = write_int32 v bsz x w"
| "write_op v bsz (Sint32 x) w = write_sint32 v bsz x w"
| "write_op v bsz (Bool b) w = write_bool v bsz b w"
| "write_op v bsz (Fixed32 x) w = write_fixed32 v bsz x w"
| "write_op v bsz (Sfixed32 x) w = write_sfixed32 v bsz x w"
| "write_op v bsz (BytesOp xs) w =
     (case v of Writer \<Rightarrow> write_bytes v bsz xs w
              | BufferWriter \<Rightarrow> write_bytes_buffer v bsz xs w)"

definition finish_of :: "variant \<Rightarrow> bool \<Rightarrow> writer \<Rightarrow> error + (ret \<times> writer)" where
  "finish_of v clearForkedStates w =
     (case v of Writer \<Rightarrow> finish clearForkedStates w
              | BufferWriter \<Rightarrow> finish_buffer clearForkedStates w)"

datatype op = Write wop | Fork | Reset bool | Finish bool

text \<open>One call on the writer; a \<open>finish\<close> contributes its result to the output.\<close>

fun step :: "variant \<Rightarrow> nat \<Rightarrow> op \<Rightarrow> writer \<Rightarrow> error + (ret list \<times> writer)" where
  "step v bsz (Write a) w = thenE (write_op v bsz a w) (\<lambda>w'. Inr ([], w'))"
| "step v bsz Fork w = thenE (fork w) (\<lambda>w'. Inr ([], w'))"
| "step v bsz (Reset c) w = Inr ([], reset c w)"
| "step v bsz (Finish c) w = thenE (finish_of v c w) (\<lambda>(r, w'). Inr ([r], w'))"

fun run :: "variant \<Rightarrow> nat \<Rightarrow> op list \<Rightarrow> writer \<Rightarrow> error + (ret list \<times> writer)" where
  "run v bsz [] w = Inr ([], w)"
| "run v bsz (a # as) w =
     thenE (step v bsz a w) (\<lambda>(rs, w').
       thenE (run v bsz as w') (\<lambda>(rs', w''). Inr (rs @ rs', w'')))"

text \<open>All writes: the ones above and the ones that call the helper modules.\<close>

datatype ('l, 'f, 's) wr =
    Plain wop | Uint64 'l | Int64 'l | Sint64 'l | Fixed64 'l | Sfixed64 'l
  | FloatOp 'f | DoubleOp 'f | StringOp 's

fun write_wr ::
  "('l, 'L, 'f, 's) helpers \<Rightarrow> variant \<Rightarrow> nat \<Rightarrow> ('l, 'f, 's) wr \<Rightarrow> writer \<Rightarrow> error + writer" where
  "write_wr h v bsz (Plain a) w = write_op v bsz a w"
| "write_wr h v bsz (Uint64 x) w = write_uint64 h v bsz x w"
| "write_wr h v bsz (Int64 x) w = write_int64 h v bsz x w"
| "write_wr h v bsz (Sint64 x) w = sint64 h v bsz x w"
| "write_wr h v bsz (Fixed64 x) w = write_fixed64 h v bsz x w"
| "write_wr h v bsz (Sfixed64 x) w = write_sfixed64 h v bsz x w"
| "write_wr h v bsz (FloatOp x) w =
     (case v of Writer \<Rightarrow> write_float h v bsz x w | BufferWriter \<Rightarrow> write_float_buffer h v bsz x w)"
| "write_wr h v bsz (DoubleOp x) w =
     (case v of Writer \<Rightarrow> write_double h v bsz x w | BufferWriter \<Rightarrow> write_double_buffer h v bsz x w)"
| "write_wr h v bsz (StringOp x) w =
     (case v of Writer \<Rightarrow> write_string h v bsz x w | BufferWriter \<Rightarrow> write_string_buffer h v bsz x w)"

text \<open>A sequence of writes on a new writer, then \<open>finish()\<close>.\<close>

fun writes ::
  "('l, 'L, 'f, 's) helpers \<Rightarrow> variant \<Rightarrow> nat \<Rightarrow> ('l, 'f, 's) wr list \<Rightarrow> writer \<Rightarrow> error + writer" where
  "writes h v bsz [] w = Inr w"
| "writes h v bsz (a # as) w = thenE (write_wr h v bsz a w) (writes h v bsz as)"

definition encode ::
  "('l, 'L, 'f, 's) helpers \<Rightarrow> variant \<Rightarrow> nat \<Rightarrow> ('l, 'f, 's) wr list \<Rightarrow> error + ret" where
  "encode h v bsz ops =
     thenE (writes h v bsz ops new_writer) (\<lambda>w.
       thenE (finish_of v False w) (\<lambda>(r, w'). Inr r))"

section \<open>Notions used to state the properties\<close>

text \<open>
  The invariant of the writer's fields: without an active buffer position and capacity
  are 0; with one, the capacity is its length, the position lies within it and \<open>_slice\<close>
  has been set.
\<close>

definition wf_writer :: "writer \<Rightarrow> bool" where
  "wf_writer w =
     (case buf w of
        None \<Rightarrow> pos w = 0 \<and> len w = 0
      | Some b \<Rightarrow> length b = len w \<and> pos w \<le> len w \<and> slice_fn w)"

text \<open>
  The bytes written so far in the current scope: the sealed chunks in order, then the
  active buffer up to the position.
\<close>

definition pending :: "writer \<Rightarrow> byte list" where
  "pending w = concat (bufs w) @ (case buf w of None \<Rightarrow> [] | Some b \<Rightarrow> take (pos w) b)"

text \<open>A write took \<open>w\<close> to \<open>w'\<close> and added the bytes \<open>xs\<close> to the current scope.\<close>

definition appends :: "writer \<Rightarrow> byte list \<Rightarrow> writer \<Rightarrow> bool" where
  "appends w xs w' \<longleftrightarrow>
     wf_writer w' \<and> pending w' = pending w @ xs \<and> stack w' = stack w
       \<and> buf w' \<noteq> None \<and> 0 < pos w'"

text \<open>The bytes the loop of \<open>write_uint32\<close> stores, as a list.\<close>

function varint_bytes :: "u32 \<Rightarrow> byte list" where
  "varint_bytes val =
     (if val > 127 then ucast (val OR 128) # varint_bytes (drop_bit 7 val) else [ucast val])"
  by pat_completeness auto
termination
proof (relation "measure unat")
  show "wf (measure (unat :: u32 \<Rightarrow> nat))"
    by simp
next
  fix val :: u32
  assume "127 < val"
  then have "val \<noteq> 0"
    by auto
  then have "0 < unat val"
    by (simp add: unat_gt_0)
  then have "unat val div 2 ^ 7 < unat val"
    by simp
  then show "(drop_bit 7 val, val) \<in> measure unat"
    by (simp add: drop_bit_eq_div unat_div)
qed

declare varint_bytes.simps [simp del]

text \<open>The number a base-128 sequence stands for, least significant group first.\<close>

fun varint_value :: "byte list \<Rightarrow> nat" where
  "varint_value [] = 0"
| "varint_value (b # bs) = unat (b AND 127) + 128 * varint_value bs"

text \<open>The four bytes \<open>write_fixed32\<close> stores.\<close>

definition le32 :: "u32 \<Rightarrow> byte list" where
  "le32 val = [ucast val, ucast (drop_bit 8 val), ucast (drop_bit 16 val), ucast (drop_bit 24 val)]"

text \<open>The bytes each write adds.\<close>

fun encoding :: "wop \<Rightarrow> byte list" where
  "encoding (Tag i t) = [tag_byte i t]"
| "encoding (Uint32 x) = varint_bytes (word_of_int x)"
| "encoding (Int32 x) = varint_bytes (word_of_int x)"
| "encoding (Sint32 x) = varint_bytes (zigzag32 (word_of_int x))"
| "encoding (Bool b) = [if b then 1 else 0]"
| "encoding (Fixed32 x) = le32 (word_of_int x)"
| "encoding (Sfixed32 x) = le32 (zigzag32 (word_of_int x))"
| "encoding (BytesOp xs) = varint_bytes (word_of_int (int (length xs))) @ xs"

text \<open>
  What the writer relies on from the helpers: a varint has at least one byte, and each
  fixed-width helper stores exactly the number of bytes reserved for it.
\<close>

definition helpers_ok :: "('l, 'L, 'f, 's) helpers \<Rightarrow> bool" where
  "helpers_ok h \<longleftrightarrow>
     (\<forall>x. long_varint h x \<noteq> []) \<and> (\<forall>x. length (long_fixed h x) = 8)
     \<and> (\<forall>x n. length (float_bytes h x n) = n)
     \<and> (\<forall>x. length (buffer_float h x) = 4) \<and> (\<forall>x. length (buffer_double h x) = 8)"

text \<open>
  The bytes each write adds, or the exception of the 64-bit helper; for a sequence, the
  bytes in order, or the first exception.
\<close>

fun encoding_wr ::
  "('l, 'L, 'f, 's) helpers \<Rightarrow> variant \<Rightarrow> ('l, 'f, 's) wr \<Rightarrow> error + byte list" where
  "encoding_wr h v (Plain a) = Inr (encoding a)"
| "encoding_wr h v (Uint64 x) = thenE (long_set h x) (\<lambda>y. Inr (long_varint h y))"
| "encoding_wr h v (Int64 x) = thenE (long_set h x) (\<lambda>y. Inr (long_varint h y))"
| "encoding_wr h v (Sint64 x) =
     thenE (long_set h x) (\<lambda>y. Inr (long_varint h (long_zigZagEncode h y)))"
| "encoding_wr h v (Fixed64 x) = thenE (long_set h x) (\<lambda>y. Inr (long_fixed h y))"
| "encoding_wr h v (Sfixed64 x) =
     thenE (long_set h x) (\<lambda>y. Inr (long_fixed h (long_zigZagEncode h y)))"
| "encoding_wr h v (FloatOp x) =
     Inr (case v of Writer \<Rightarrow> float_bytes h x 4 | BufferWriter \<Rightarrow> buffer_float h x)"
| "encoding_wr h v (DoubleOp x) =
     Inr (case v of Writer \<Rightarrow> float_bytes h x 8 | BufferWriter \<Rightarrow> buffer_double h x)"
| "encoding_wr h v (StringOp x) =
     (let bs = (case v of Writer \<Rightarrow> string_encode h x | BufferWriter \<Rightarrow> buffer_utf8 h x)
      in Inr (varint_bytes (word_of_int (int (length bs))) @ bs))"

fun encodings ::
  "('l, 'L, 'f, 's) helpers \<Rightarrow> variant \<Rightarrow> ('l, 'f, 's) wr list \<Rightarrow> error + byte list" where
  "encodings h v [] = Inr []"
| "encodings h v (a # as) =
     thenE (encoding_wr h v a) (\<lambda>xs. thenE (encodings h v as) (\<lambda>ys. Inr (xs @ ys)))"

text \<open>The outcome of a write: the helper's exception, or a state with the bytes added.\<close>

definition write_outcome :: "error + byte list \<Rightarrow> writer \<Rightarrow> error + writer \<Rightarrow> bool" where
  "write_outcome enc w r =
     (case enc of Inl e \<Rightarrow> r = Inl e | Inr bs \<Rightarrow> (\<exists>w'. r = Inr w' \<and> appends w bs w'))"

text \<open>
  A stand-in for the helper modules that satisfies \<open>helpers_ok\<close>. It serves to instantiate
  the theorems that assume \<open>helpers_ok\<close>; it does not describe the helpers.
\<close>

definition sample_helpers :: "(byte, byte, byte, byte list) helpers" where
  "sample_helpers =
     \<lparr>long_set = (\<lambda>x. if x = 255 then Inl InvalidValue else Inr x),
      long_zigZagEncode = (\<lambda>x. x),
      long_varint = (\<lambda>x. [x]),
      long_fixed = (\<lambda>x. replicate 8 x),
      float_bytes = (\<lambda>x n. replicate n x),
      string_encode = (\<lambda>s. s),
      buffer_float = (\<lambda>x. replicate 4 x),
      buffer_double = (\<lambda>x. replicate 8 x),
      buffer_utf8 = (\<lambda>s. s)\<rparr>"

text \<open>
  Modelled from the spec: \<open>unzigzag\<close>, the inverse map of the zigzag law. The reader
  that decodes it is not part of writer.js; this is the decoding
  \<open>(n >>> 1) ^ -(n & 1)\<close> on 32-bit patterns.
\<close>

definition unzigzag32 :: "u32 \<Rightarrow> u32" where
  "unzigzag32 n = drop_bit 1 n XOR - (n AND 1)"

section \<open>Sequencing\<close>

lemma thenE_Inr [simp]: "thenE (Inr x) f = f x"
  by (simp add: thenE_def)

lemma thenE_Inl [simp]: "thenE (Inl e) f = Inl e"
  by (simp add: thenE_def)

lemma thenE_emit_Nil [simp]: "thenE m (emit []) = m"
  by (cases m) simp_all

section \<open>The zigzag map\<close>

lemma neg_and1: "bit (- (n AND 1) :: u32) k \<longleftrightarrow> k < 32 \<and> bit n 0"
proof (cases "bit n 0")
  case True
  then have "n AND 1 = 1" by (simp add: and_one_eq mod_2_eq_odd bit_0)
  then show ?thesis using True by (simp add: bit_simps)
next
  case False
  then have "n AND 1 = 0" by (simp add: and_one_eq mod_2_eq_odd bit_0)
  then show ?thesis using False by simp
qed

lemma bit_zigzag32:
  "bit (zigzag32 v) n \<longleftrightarrow> n < 32 \<and> ((0 < n \<and> bit v (n - 1)) \<noteq> bit v 31)"
proof -
  have a: "bit (push_bit 1 v) n \<longleftrightarrow> n < 32 \<and> 0 < n \<and> bit v (n - 1)"
    unfolding bit_push_bit_iff by (auto simp add: possible_bit_word dest: bit_imp_le_length)
  have b: "bit (signed_drop_bit 31 v) n \<longleftrightarrow> n < 32 \<and> bit v 31"
    by (cases "n = 0") (auto simp add: bit_signed_drop_bit_iff dest: bit_imp_le_length)
  show ?thesis
    unfolding zigzag32_def bit_xor_iff a b by auto
qed

lemma bit_unzigzag32:
  "bit (unzigzag32 z) n \<longleftrightarrow> n < 32 \<and> (bit z (n + 1) \<noteq> bit z 0)"
proof -
  have a: "bit (drop_bit 1 z) n \<longleftrightarrow> bit z (n + 1)"
    by (simp add: bit_drop_bit_eq)
  show ?thesis
    unfolding unzigzag32_def bit_xor_iff a neg_and1 
    by (auto dest: bit_imp_le_length)
qed

lemma unzigzag32_zigzag32: "unzigzag32 (zigzag32 v) = v"
proof (rule bit_word_eqI)
  fix n assume "n < LENGTH(32)"
  then have n: "n < 32" by simp
  show "bit (unzigzag32 (zigzag32 v)) n = bit v n"
    using n by (cases "n = 31") (auto simp add: bit_unzigzag32 bit_zigzag32)
qed

lemma zigzag32_unzigzag32: "zigzag32 (unzigzag32 z) = z"
proof (rule bit_word_eqI)
  fix n assume "n < LENGTH(32)"
  then have n: "n < 32" by simp
  have "\<not> bit z 32" by (auto dest: bit_imp_le_length)
  then show "bit (zigzag32 (unzigzag32 z)) n = bit z n"
    using n by (cases "n = 0") (auto simp add: bit_unzigzag32 bit_zigzag32)
qed

section \<open>The varint loop\<close>

lemma bit_128: "bit (128 :: 'a::len word) n \<longleftrightarrow> n = 7 \<and> n < LENGTH('a)"
proof -
  have "(128 :: 'a word) = push_bit 7 1"
    by simp
  then have "bit (128 :: 'a word) n = bit (push_bit 7 (1 :: 'a word)) n"
    by (simp only:)
  also have "\<dots> \<longleftrightarrow> n = 7 \<and> n < LENGTH('a)"
    unfolding bit_push_bit_iff by (auto simp add: bit_1_iff possible_bit_word)
  finally show ?thesis .
qed

lemma bit_127: "bit (127 :: 'a::len word) n \<longleftrightarrow> n < 7 \<and> n < LENGTH('a)"
proof -
  have "(127 :: 'a word) = mask 7"
    by (simp add: mask_eq_exp_minus_1)
  then have "bit (127 :: 'a word) n = bit (mask 7 :: 'a word) n"
    by (simp only:)
  also have "\<dots> \<longleftrightarrow> n < 7 \<and> n < LENGTH('a)"
    unfolding bit_mask_iff by (auto simp add: possible_bit_word)
  finally show ?thesis .
qed

lemma low7_cont: "unat (ucast (val OR 128) AND (127 :: byte)) = unat (val :: u32) mod 128"
proof -
  have "ucast (val OR 128) AND (127 :: byte) = ucast (take_bit 7 val)"
  proof (rule bit_word_eqI)
    fix n
    assume "n < LENGTH(8)"
    then show "bit (ucast (val OR 128) AND (127 :: byte)) n = bit (ucast (take_bit 7 val) :: byte) n"
      unfolding bit_and_iff bit_or_iff bit_ucast_iff bit_take_bit_iff bit_127 bit_128
      by auto
  qed
  moreover have "unat (ucast (take_bit 7 val) :: byte) = unat val mod 128"
  proof -
    have "unat val mod 128 < 256"
      by (rule less_trans [of _ 128]) simp_all
    then show ?thesis
      by (simp add: unsigned_ucast_eq unsigned_take_bit_eq take_bit_eq_mod unat_mod)
  qed
  ultimately show ?thesis
    by simp
qed

lemma low7_last: "unat (val :: u32) < 128 \<Longrightarrow> unat ((ucast val :: byte) AND 127) = unat val"
proof -
  assume a: "unat val < 128"
  have "(ucast val :: byte) AND 127 = ucast (take_bit 7 val)"
  proof (rule bit_word_eqI)
    fix n
    assume "n < LENGTH(8)"
    then show "bit ((ucast val :: byte) AND 127) n = bit (ucast (take_bit 7 val) :: byte) n"
      unfolding bit_and_iff bit_ucast_iff bit_take_bit_iff bit_127
      by auto
  qed
  moreover have "unat (ucast (take_bit 7 val) :: byte) = unat val mod 128"
  proof -
    have "unat val mod 128 < 256"
      by (rule less_trans [of _ 128]) simp_all
    then show ?thesis
      by (simp add: unsigned_ucast_eq unsigned_take_bit_eq take_bit_eq_mod unat_mod)
  qed
  ultimately show ?thesis
    using a by simp
qed

lemma varint_loop_emit: "varint_loop val w = emit (varint_bytes val) w"
proof (induction val w rule: varint_loop.induct)
  case (1 val w)
  show ?case
  proof (cases "val > 127")
    case True
    show ?thesis
    proof (cases "store (ucast (val OR 128)) w")
      case (Inl e)
      then show ?thesis using True
        by (subst varint_loop.simps, subst varint_bytes.simps) simp
    next
      case (Inr w1)
      then show ?thesis using True "1.IH" [OF True]
        by (subst varint_loop.simps, subst varint_bytes.simps) simp
    qed
  next
    case False
    then show ?thesis
      by (subst varint_loop.simps, subst varint_bytes.simps) simp
  qed
qed

lemma unat_drop7: "unat (drop_bit 7 (val :: u32)) = unat val div 128"
  by (simp add: drop_bit_eq_div unat_div)

lemma varint_bytes_length: "length (varint_bytes val) = varint_len val"
proof -
  have g: "\<And>(x :: u32). (127 < x) = (\<not> x < 128)"
    by (simp add: word_less_nat_alt not_less) arith
  consider "val < 128" | "\<not> val < 128" "val < 16384" | "\<not> val < 16384" "val < 2097152"
    | "\<not> val < 2097152" "val < 268435456" | "\<not> val < 268435456" by blast
  then show ?thesis
  proof cases
    case 1
    then show ?thesis 
      by (subst varint_bytes.simps) (simp add: varint_len_def g)
  next
    case 2
    then have "\<not> val < 128" "drop_bit 7 val < 128"
      by (simp_all add: word_less_nat_alt unat_drop_bit_eq drop_bit_eq_div unat_div)
    then show ?thesis using 2
      by (subst varint_bytes.simps, subst varint_bytes.simps) (simp add: varint_len_def g)
  next
    case 3
    then have "\<not> val < 128" "\<not> val < 16384" "\<not> drop_bit 7 val < 128" "drop_bit 7 (drop_bit 7 val) < 128"
      by (simp_all add: word_less_nat_alt unat_drop_bit_eq drop_bit_eq_div unat_div)
    then show ?thesis using 3
      by (subst varint_bytes.simps, subst varint_bytes.simps, subst varint_bytes.simps) (simp add: varint_len_def g)
  next
    case 4
    then have "\<not> val < 128" "\<not> val < 16384" "\<not> val < 2097152" "\<not> drop_bit 7 val < 128" "\<not> drop_bit 7 (drop_bit 7 val) < 128"
      "drop_bit 7 (drop_bit 7 (drop_bit 7 val)) < 128"
      by (simp_all add: word_less_nat_alt unat_drop_bit_eq drop_bit_eq_div unat_div)
    then show ?thesis using 4
      by (subst varint_bytes.simps, subst varint_bytes.simps, subst varint_bytes.simps, subst varint_bytes.simps) (simp add: varint_len_def g)
  next
    case 5
    have "unat val < 2 ^ 32" using unsigned_less [of val] by simp
    with 5 have "\<not> val < 128" "\<not> val < 16384" "\<not> val < 2097152" "\<not> drop_bit 7 val < 128" "\<not> drop_bit 7 (drop_bit 7 val) < 128"
      "\<not> drop_bit 7 (drop_bit 7 (drop_bit 7 val)) < 128"
      "drop_bit 7 (drop_bit 7 (drop_bit 7 (drop_bit 7 val))) < 128"
      by (simp_all add: word_less_nat_alt unat_drop_bit_eq drop_bit_eq_div unat_div)
    then show ?thesis using 5
      by (subst varint_bytes.simps, subst varint_bytes.simps, subst varint_bytes.simps, subst varint_bytes.simps, subst varint_bytes.simps) (simp add: varint_len_def g)
  qed
qed

lemma varint_bytes_value: "varint_value (varint_bytes val) = unat val"
proof (induction val rule: varint_bytes.induct)
  case (1 val)
  show ?case
  proof (cases "val > 127")
    case True
    show ?thesis using True "1.IH" [OF True]
      by (subst varint_bytes.simps) (simp add: unat_drop7 low7_cont)
  next
    case False
    then have "unat val < 128"
      by (simp add: word_less_nat_alt not_less)
    then show ?thesis using False
      by (subst varint_bytes.simps) (simp add: low7_last)
  qed
qed

section \<open>Writes keep the invariant and add their bytes\<close>

lemma wf_new_writer: "wf_writer new_writer"
  by (simp add: wf_writer_def new_writer_def)

lemma length_alloc [simp]: "length (alloc v n) = n"
  by (cases v) (simp_all add: alloc_def)

lemma store_room:
  assumes "wf_writer w" and "pos w < len w"
  shows "\<exists>w'. store x w = Inr w' \<and> wf_writer w' \<and> pending w' = pending w @ [x]
           \<and> stack w' = stack w \<and> bufs w' = bufs w \<and> len w' = len w
           \<and> pos w' = pos w + 1 \<and> buf w' \<noteq> None"
proof (cases "buf w")
  case None
  with assms show ?thesis
    by (simp add: wf_writer_def)
next
  case (Some b)
  with assms have b: "length b = len w" "pos w < length b" "slice_fn w"
    by (simp_all add: wf_writer_def)
  then have "take (Suc (pos w)) (b[pos w := x]) = take (pos w) b @ [x]"
    by (simp add: take_Suc_conv_app_nth)
  with Some b show ?thesis
    by (simp add: store_def wf_writer_def pending_def)
qed

lemma emit_room:
  assumes "wf_writer w" and "pos w + length xs \<le> len w"
  shows "\<exists>w'. emit xs w = Inr w' \<and> wf_writer w' \<and> pending w' = pending w @ xs
           \<and> stack w' = stack w \<and> bufs w' = bufs w \<and> len w' = len w
           \<and> pos w' = pos w + length xs \<and> (xs \<noteq> [] \<longrightarrow> buf w' \<noteq> None)"
  using assms
proof (induction xs arbitrary: w)
  case Nil
  then show ?case by simp
next
  case (Cons x xs)
  then have "pos w < len w" by simp
  from store_room [OF Cons.prems(1) this, of x] obtain w1 where
    w1: "store x w = Inr w1" "wf_writer w1" "pending w1 = pending w @ [x]"
      "stack w1 = stack w" "bufs w1 = bufs w" "len w1 = len w" "pos w1 = pos w + 1"
      "buf w1 \<noteq> None"
    by blast
  with Cons.prems have "pos w1 + length xs \<le> len w1" by simp
  from Cons.IH [OF w1(2) this] obtain w' where
    w': "emit xs w1 = Inr w'" "wf_writer w'" "pending w' = pending w1 @ xs"
      "stack w' = stack w1" "bufs w' = bufs w1" "len w' = len w1"
      "pos w' = pos w1 + length xs"
    by blast
  from w'(2,6) w1(6) \<open>pos w < len w\<close> have "buf w' \<noteq> None"
    by (auto simp add: wf_writer_def split: option.splits)
  with w1 w' show ?case by simp
qed

lemma expand_wf:
  assumes "wf_writer w"
  shows "\<exists>w'. expand v bsz w n = Inr w' \<and> wf_writer w' \<and> pending w' = pending w
           \<and> stack w' = stack w \<and> pos w' = 0 \<and> len w' = max n bsz
           \<and> buf w' = Some (alloc v (max n bsz))
           \<and> bufs w' = (if pos w \<noteq> 0 then bufs w @ [take (pos w) (the (buf w))] else bufs w)"
proof (cases "pos w = 0")
  case True
  then show ?thesis
    by (simp add: expand_def wf_writer_def pending_def Let_def split: option.splits)
next
  case False
  with assms obtain b where "buf w = Some b" "slice_fn w"
    by (auto simp add: wf_writer_def split: option.splits)
  with False show ?thesis
    by (simp add: expand_def slice2_def wf_writer_def pending_def Let_def)
qed

lemma ensure_wf:
  assumes "wf_writer w"
  shows "\<exists>w'. ensure v bsz n w = Inr w' \<and> wf_writer w' \<and> pending w' = pending w
           \<and> stack w' = stack w \<and> pos w' + n \<le> len w'
           \<and> (buf w \<noteq> None \<longrightarrow> buf w' \<noteq> None) \<and> (pos w + n \<le> len w \<longrightarrow> w' = w)"
proof (cases "pos w + n > len w")
  case True
  from expand_wf [OF assms, of v bsz n] obtain w' where
    "expand v bsz w n = Inr w'" "wf_writer w'" "pending w' = pending w"
    "stack w' = stack w" "pos w' = 0" "len w' = max n bsz" "buf w' = Some (alloc v (max n bsz))"
    by blast
  with True show ?thesis by (simp add: ensure_def)
next
  case False
  with assms show ?thesis by (simp add: ensure_def)
qed

lemma ensure_emit:
  assumes "wf_writer w" and "xs \<noteq> []"
  shows "\<exists>w'. thenE (ensure v bsz (length xs) w) (emit xs) = Inr w' \<and> appends w xs w'"
proof -
  from ensure_wf [OF assms(1), of v bsz "length xs"] obtain w1 where
    w1: "ensure v bsz (length xs) w = Inr w1" "wf_writer w1" "pending w1 = pending w"
      "stack w1 = stack w" "pos w1 + length xs \<le> len w1"
    by blast
  from emit_room [OF w1(2) w1(5)] assms(2) obtain w' where
    "emit xs w1 = Inr w'" "wf_writer w'" "pending w' = pending w1 @ xs"
      "stack w' = stack w1" "buf w' \<noteq> None" "pos w' = pos w1 + length xs"
    by blast
  with w1 assms(2) show ?thesis by (simp add: appends_def)
qed

lemma varint_bytes_nonempty: "varint_bytes val \<noteq> []"
  by (subst varint_bytes.simps) simp

lemma write_uint32_appends:
  assumes "wf_writer w"
  shows "\<exists>w'. write_uint32 v bsz value w = Inr w' \<and> appends w (varint_bytes (word_of_int value)) w'"
  using ensure_emit [OF assms varint_bytes_nonempty, of v bsz "word_of_int value"]
  by (simp add: write_uint32_def Let_def varint_loop_emit [abs_def] varint_bytes_length)


lemma emit_Cons_fun: "emit (x # xs) = (\<lambda>w. thenE (store x w) (emit xs))"
  by (rule ext) simp

lemma emit_single: "emit [x] = store x"
  by (rule ext) simp

lemma write_tag_appends:
  assumes "wf_writer w"
  shows "\<exists>w'. write_tag v bsz i t w = Inr w' \<and> appends w [tag_byte i t] w'"
  using ensure_emit [OF assms, of "[tag_byte i t]" v bsz]
  by (simp add: write_tag_def emit_single)

lemma write_bool_appends:
  assumes "wf_writer w"
  shows "\<exists>w'. write_bool v bsz b w = Inr w' \<and> appends w [if b then 1 else 0] w'"
  using ensure_emit [OF assms, of "[if b then 1 else 0]" v bsz]
  by (simp add: write_bool_def emit_single)

lemma write_fixed32_appends:
  assumes "wf_writer w"
  shows "\<exists>w'. write_fixed32 v bsz value w = Inr w' \<and> appends w (le32 (word_of_int value)) w'"
proof -
  have l: "length (le32 (word_of_int value)) = 4"
    by (simp add: le32_def)
  from ensure_emit [OF assms, of "le32 (word_of_int value)" v bsz] obtain w' where
    "thenE (ensure v bsz 4 w) (emit (le32 (word_of_int value))) = Inr w'"
    "appends w (le32 (word_of_int value)) w'"
    unfolding l by (auto simp add: le32_def)
  then show ?thesis
    by (simp add: write_fixed32_def le32_def Let_def emit_Cons_fun)
qed

lemma write_sint32_appends:
  assumes "wf_writer w"
  shows "\<exists>w'. write_sint32 v bsz value w = Inr w'
           \<and> appends w (varint_bytes (zigzag32 (word_of_int value))) w'"
  using write_uint32_appends [OF assms, of v bsz "sint (zigzag32 (word_of_int value))"]
  by (simp add: write_sint32_def)

lemma write_sfixed32_appends:
  assumes "wf_writer w"
  shows "\<exists>w'. write_sfixed32 v bsz value w = Inr w'
           \<and> appends w (le32 (zigzag32 (word_of_int value))) w'"
  using write_fixed32_appends [OF assms, of v bsz "sint (zigzag32 (word_of_int value))"]
  by (simp add: write_sfixed32_def)

lemma block_room:
  assumes "wf_writer w" and "buf w = Some b" and "pos w + length xs \<le> len w"
    and "0 < pos w + length xs"
  shows "set_bytes b (Some xs) (pos w) = Inr (copy_bytes xs b (pos w))"
    and "appends w xs (w\<lparr>buf := Some (copy_bytes xs b (pos w)), pos := pos w + length xs\<rparr>)"
  using assms
  by (simp_all add: set_bytes_def copy_bytes_def appends_def wf_writer_def pending_def)

lemma write_bytes_appends:
  assumes "wf_writer w"
  shows "\<exists>w'. write_bytes v bsz value w = Inr w'
           \<and> appends w (varint_bytes (word_of_int (int (length value))) @ value) w'"
proof -
  from write_uint32_appends [OF assms, of v bsz "int (length value)"] obtain w1 where
    w1: "write_uint32 v bsz (int (length value)) w = Inr w1"
      "appends w (varint_bytes (word_of_int (int (length value)))) w1"
    by blast
  show ?thesis
  proof (cases "value = []")
    case True
    with w1 show ?thesis by (simp add: write_bytes_def)
  next
    case False
    from w1(2) have wf1: "wf_writer w1" by (simp add: appends_def)
    from ensure_wf [OF wf1, of v bsz "length value"] obtain w2 where
      w2: "ensure v bsz (length value) w1 = Inr w2" "wf_writer w2" "pending w2 = pending w1"
        "stack w2 = stack w1" "pos w2 + length value \<le> len w2"
        "buf w1 \<noteq> None \<longrightarrow> buf w2 \<noteq> None"
      by blast
    with w1(2) obtain b where b: "buf w2 = Some b" by (auto simp add: appends_def)
    from False have p: "0 < pos w2 + length value" by simp
    from block_room(2) [OF w2(2) b w2(5) p] w1(2) w2(3,4)
    have "appends w (varint_bytes (word_of_int (int (length value))) @ value)
            (w2\<lparr>buf := Some (copy_bytes value b (pos w2)), pos := pos w2 + length value\<rparr>)"
      by (simp add: appends_def)
    with w1(1) w2(1) b block_room(1) [OF w2(2) b w2(5) p] False
    show ?thesis by (simp add: write_bytes_def Let_def)
  qed
qed

lemma write_bytes_buffer_appends:
  assumes "wf_writer w"
  shows "\<exists>w'. write_bytes_buffer v bsz value w = Inr w'
           \<and> appends w (varint_bytes (word_of_int (int (length value))) @ value) w'"
proof -
  from write_uint32_appends [OF assms, of v bsz "int (length value)"] obtain w1 where
    w1: "write_uint32 v bsz (int (length value)) w = Inr w1"
      "appends w (varint_bytes (word_of_int (int (length value)))) w1"
    by blast
  from w1(2) have wf1: "wf_writer w1" by (simp add: appends_def)
  from ensure_wf [OF wf1, of v bsz "length value"] obtain w2 where
    w2: "ensure v bsz (length value) w1 = Inr w2" "wf_writer w2" "pending w2 = pending w1"
      "stack w2 = stack w1" "pos w2 + length value \<le> len w2"
      "buf w1 \<noteq> None \<longrightarrow> buf w2 \<noteq> None" "pos w1 + length value \<le> len w1 \<longrightarrow> w2 = w1"
    by blast
  with w1(2) obtain b where b: "buf w2 = Some b" by (auto simp add: appends_def)
  have p: "0 < pos w2 + length value"
  proof (cases "value = []")
    case True
    from wf1 have "pos w1 \<le> len w1"
      by (auto simp add: wf_writer_def split: option.splits)
    with True w2(7) w1(2) show ?thesis by (simp add: appends_def)
  next
    case False
    then show ?thesis by simp
  qed
  from block_room(2) [OF w2(2) b w2(5) p] w1(2) w2(3,4)
  have "appends w (varint_bytes (word_of_int (int (length value))) @ value)
          (w2\<lparr>buf := Some (copy_bytes value b (pos w2)), pos := pos w2 + length value\<rparr>)"
    by (simp add: appends_def)
  with w1(1) w2(1) b show ?thesis by (simp add: write_bytes_buffer_def Let_def)
qed

lemma write_op_appends:
  assumes "wf_writer w"
  shows "\<exists>w'. write_op v bsz a w = Inr w' \<and> appends w (encoding a) w'"
proof (cases a)
  case (Tag i t)
  then show ?thesis using write_tag_appends [OF assms] by simp
next
  case (Uint32 x)
  then show ?thesis using write_uint32_appends [OF assms] by simp
next
  case (Int32 x)
  then show ?thesis using write_uint32_appends [OF assms] by (simp add: write_int32_def)
next
  case (Sint32 x)
  then show ?thesis using write_sint32_appends [OF assms] by simp
next
  case (Bool b)
  then show ?thesis using write_bool_appends [OF assms, of v bsz b] by simp
next
  case (Fixed32 x)
  then show ?thesis using write_fixed32_appends [OF assms] by simp
next
  case (Sfixed32 x)
  then show ?thesis using write_sfixed32_appends [OF assms] by simp
next
  case (BytesOp xs)
  then show ?thesis
    using write_bytes_appends [OF assms, of v bsz xs] write_bytes_buffer_appends [OF assms, of v bsz xs]
    by (cases v) simp_all
qed

lemma long_write_appends:
  assumes "wf_writer w" and "helpers_ok h"
  shows "\<exists>w'. long_write h v bsz x w = Inr w' \<and> appends w (long_varint h x) w'"
proof -
  from assms(2) have "long_varint h x \<noteq> []"
    by (simp add: helpers_ok_def)
  from ensure_emit [OF assms(1) this, of v bsz] show ?thesis
    by (simp add: long_write_def)
qed

lemma ensure_emit_n:
  assumes "wf_writer w" and "length xs = n" and "0 < n"
  shows "\<exists>w'. thenE (ensure v bsz n w) (emit xs) = Inr w' \<and> appends w xs w'"
proof -
  from assms(2,3) have "xs \<noteq> []"
    by auto
  from ensure_emit [OF assms(1) this, of v bsz] assms(2) show ?thesis
    by simp
qed

lemma ensure_Inr:
  assumes "wf_writer w"
  shows "\<exists>w1. ensure v bsz n w = Inr w1"
  using ensure_wf [OF assms, of v bsz n] by blast

lemma write_uint64_outcome:
  assumes "wf_writer w" and "helpers_ok h"
  shows "write_outcome (encoding_wr h v (Uint64 x)) w (write_uint64 h v bsz x w)"
  using long_write_appends [OF assms, of v bsz]
  by (cases "long_set h x") (simp_all add: write_outcome_def write_uint64_def)

lemma sint64_outcome:
  assumes "wf_writer w" and "helpers_ok h"
  shows "write_outcome (encoding_wr h v (Sint64 x)) w (sint64 h v bsz x w)"
  using long_write_appends [OF assms, of v bsz]
  by (cases "long_set h x") (simp_all add: write_outcome_def sint64_def)

lemma fixed64_step:
  assumes "wf_writer w" and "helpers_ok h"
  shows "\<exists>w'. thenE (ensure v bsz 8 w) (long_writeFixed h y) = Inr w' \<and> appends w (long_fixed h y) w'"
proof -
  from assms(2) have "length (long_fixed h y) = 8"
    by (simp add: helpers_ok_def)
  from ensure_emit_n [OF assms(1) this, of v bsz] show ?thesis
    by (simp add: long_writeFixed_def [abs_def])
qed

lemma write_fixed64_outcome:
  assumes "wf_writer w" and "helpers_ok h"
  shows "write_outcome (encoding_wr h v (Fixed64 x)) w (write_fixed64 h v bsz x w)"
proof (cases "long_set h x")
  case (Inl e)
  with ensure_Inr [OF assms(1), of v bsz 8] show ?thesis
    by (auto simp add: write_outcome_def write_fixed64_def)
next
  case (Inr y)
  with fixed64_step [OF assms, of v bsz y] show ?thesis
    by (simp add: write_outcome_def write_fixed64_def)
qed

lemma write_sfixed64_outcome:
  assumes "wf_writer w" and "helpers_ok h"
  shows "write_outcome (encoding_wr h v (Sfixed64 x)) w (write_sfixed64 h v bsz x w)"
proof (cases "long_set h x")
  case (Inl e)
  with ensure_Inr [OF assms(1), of v bsz 8] show ?thesis
    by (auto simp add: write_outcome_def write_sfixed64_def)
next
  case (Inr y)
  with fixed64_step [OF assms, of v bsz "long_zigZagEncode h y"] show ?thesis
    by (simp add: write_outcome_def write_sfixed64_def)
qed

lemma write_float_appends:
  assumes "wf_writer w" and "helpers_ok h"
  shows "\<exists>w'. write_float h v bsz x w = Inr w' \<and> appends w (float_bytes h x 4) w'"
    and "\<exists>w'. write_double h v bsz x w = Inr w' \<and> appends w (float_bytes h x 8) w'"
proof -
  from assms(2) have l: "length (float_bytes h x 4) = 4" "length (float_bytes h x 8) = 8"
    by (simp_all add: helpers_ok_def)
  from ensure_emit_n [OF assms(1) l(1), of v bsz]
  show "\<exists>w'. write_float h v bsz x w = Inr w' \<and> appends w (float_bytes h x 4) w'"
    by (simp add: write_float_def float_write_def [abs_def])
  from ensure_emit_n [OF assms(1) l(2), of v bsz]
  show "\<exists>w'. write_double h v bsz x w = Inr w' \<and> appends w (float_bytes h x 8) w'"
    by (simp add: write_double_def float_write_def [abs_def])
qed

lemma buffer_block:
  assumes "wf_writer w" and "length xs = n" and "0 < n"
  shows "\<exists>w'. thenE (ensure v bsz n w) (\<lambda>w1.
             case buf w1 of
               None \<Rightarrow> Inl TypeError
             | Some b \<Rightarrow> Inr (w1\<lparr>buf := Some (copy_bytes xs b (pos w1)), pos := pos w1 + n\<rparr>))
           = Inr w' \<and> appends w xs w'"
proof -
  from ensure_wf [OF assms(1), of v bsz n] obtain w1 where
    w1: "ensure v bsz n w = Inr w1" "wf_writer w1" "pending w1 = pending w"
      "stack w1 = stack w" "pos w1 + n \<le> len w1"
    by blast
  from w1(2,5) assms(3) obtain b where b: "buf w1 = Some b"
    by (cases "buf w1") (auto simp add: wf_writer_def)
  from w1(5) assms(2,3) have r: "pos w1 + length xs \<le> len w1" "0 < pos w1 + length xs"
    by simp_all
  from block_room(2) [OF w1(2) b r] w1(3,4) assms(2)
  have "appends w xs (w1\<lparr>buf := Some (copy_bytes xs b (pos w1)), pos := pos w1 + n\<rparr>)"
    by (simp add: appends_def)
  with w1(1) b show ?thesis
    by simp
qed

lemma write_float_buffer_appends:
  assumes "wf_writer w" and "helpers_ok h"
  shows "\<exists>w'. write_float_buffer h v bsz x w = Inr w' \<and> appends w (buffer_float h x) w'"
    and "\<exists>w'. write_double_buffer h v bsz x w = Inr w' \<and> appends w (buffer_double h x) w'"
proof -
  from assms(2) have l: "length (buffer_float h x) = 4" "length (buffer_double h x) = 8"
    by (simp_all add: helpers_ok_def)
  from buffer_block [OF assms(1) l(1), of v bsz]
  show "\<exists>w'. write_float_buffer h v bsz x w = Inr w' \<and> appends w (buffer_float h x) w'"
    by (simp add: write_float_buffer_def)
  from buffer_block [OF assms(1) l(2), of v bsz]
  show "\<exists>w'. write_double_buffer h v bsz x w = Inr w' \<and> appends w (buffer_double h x) w'"
    by (simp add: write_double_buffer_def)
qed

lemma write_string_buffer_eq:
  "write_string_buffer h v bsz x w = write_bytes_buffer v bsz (buffer_utf8 h x) w"
  by (simp add: write_string_buffer_def write_bytes_buffer_def)

lemma write_wr_outcome:
  assumes "wf_writer w" and "helpers_ok h"
  shows "write_outcome (encoding_wr h v a) w (write_wr h v bsz a w)"
proof (cases a)
  case (Plain b)
  with write_op_appends [OF assms(1), of v bsz b] show ?thesis
    by (simp add: write_outcome_def)
next
  case (Uint64 x)
  with write_uint64_outcome [OF assms, of v x bsz] show ?thesis by simp
next
  case (Int64 x)
  with write_uint64_outcome [OF assms, of v x bsz] show ?thesis
    by (simp add: write_int64_def)
next
  case (Sint64 x)
  with sint64_outcome [OF assms, of v x bsz] show ?thesis by simp
next
  case (Fixed64 x)
  with write_fixed64_outcome [OF assms, of v x bsz] show ?thesis by simp
next
  case (Sfixed64 x)
  with write_sfixed64_outcome [OF assms, of v x bsz] show ?thesis by simp
next
  case (FloatOp x)
  with write_float_appends(1) [OF assms, of v bsz x] write_float_buffer_appends(1) [OF assms, of v bsz x]
  show ?thesis
    by (cases v) (simp_all add: write_outcome_def)
next
  case (DoubleOp x)
  with write_float_appends(2) [OF assms, of v bsz x] write_float_buffer_appends(2) [OF assms, of v bsz x]
  show ?thesis
    by (cases v) (simp_all add: write_outcome_def)
next
  case (StringOp x)
  with write_bytes_appends [OF assms(1), of v bsz "string_encode h x"]
    write_bytes_buffer_appends [OF assms(1), of v bsz "buffer_utf8 h x"]
  show ?thesis
    by (cases v) (simp_all add: write_outcome_def write_string_def write_string_buffer_eq Let_def)
qed

lemma writes_outcome:
  assumes "wf_writer w" and "helpers_ok h"
  shows "case encodings h v ops of
           Inl e \<Rightarrow> writes h v bsz ops w = Inl e
         | Inr bs \<Rightarrow>
             (\<exists>w'. writes h v bsz ops w = Inr w' \<and> wf_writer w' \<and> pending w' = pending w @ bs
                \<and> stack w' = stack w \<and> (ops \<noteq> [] \<longrightarrow> buf w' \<noteq> None))"
  using assms(1)
proof (induction ops arbitrary: w)
  case Nil
  then show ?case by simp
next
  case (Cons a ops)
  note o = write_wr_outcome [OF Cons.prems assms(2), of v a bsz]
  show ?case
  proof (cases "encoding_wr h v a")
    case (Inl e)
    with o show ?thesis
      by (simp add: write_outcome_def)
  next
    case (Inr xs)
    with o obtain w1 where
      w1: "write_wr h v bsz a w = Inr w1" "appends w xs w1"
      by (auto simp add: write_outcome_def)
    then have wf1: "wf_writer w1" and b1: "buf w1 \<noteq> None"
      by (simp_all add: appends_def)
    note ih = Cons.IH [OF wf1]
    show ?thesis
    proof (cases "encodings h v ops")
      case (Inl e)
      with ih Inr w1(1) show ?thesis
        by simp
    next
      case r: (Inr ys)
      with ih obtain w' where
        w': "writes h v bsz ops w1 = Inr w'" "wf_writer w'" "pending w' = pending w1 @ ys"
          "stack w' = stack w1" "ops \<noteq> [] \<longrightarrow> buf w' \<noteq> None"
        by auto
      have "buf w' \<noteq> None"
      proof (cases ops)
        case Nil
        with w'(1) b1 show ?thesis by simp
      next
        case (Cons b bs)
        with w'(5) show ?thesis by simp
      qed
      with w1 w' Inr r show ?thesis
        by (simp add: appends_def)
    qed
  qed
qed

section \<open>Finish on a writer with an active buffer\<close>

lemma fold_length: "fold (\<lambda>c n. n + length c) cs p = p + length (concat cs)"
  by (induction cs arbitrary: p) simp_all

lemma set_chunks_fits:
  "p + length (concat cs) \<le> length t \<Longrightarrow>
   set_chunks t cs p =
     Inr (take p t @ concat cs @ drop (p + length (concat cs)) t, p + length (concat cs))"
proof (induction cs arbitrary: t p)
  case Nil
  then show ?case by simp
next
  case (Cons c cs)
  let ?t = "take p t @ c @ drop (p + length c) t"
  from Cons.prems have fit: "length c + p \<le> length t"
    by simp
  then have s: "set_bytes t (Some c) p = Inr ?t"
    by (simp add: set_bytes_def)
  from Cons.prems have l: "length ?t = length t" "p + length c + length (concat cs) \<le> length ?t"
    by simp_all
  from fit have tk: "take (p + length c) ?t = take p t @ c"
    by simp
  from Cons.prems have dr: "drop (p + length c + length (concat cs)) ?t
      = drop (p + length c + length (concat cs)) t"
    by (simp add: ac_simps)
  have "set_chunks t (c # cs) p = set_chunks ?t cs (p + length c)"
    using s by simp
  also have "\<dots> = Inr (take (p + length c) ?t @ concat cs
                 @ drop (p + length c + length (concat cs)) ?t,
               p + length c + length (concat cs))"
    by (rule Cons.IH [OF l(2)])
  also have "\<dots> = Inr (take p t @ concat (c # cs) @ drop (p + length (concat (c # cs))) t,
               p + length (concat (c # cs)))"
    by (simp only: tk dr) (simp add: add.assoc)
  finally show ?case .
qed

lemma reset_slice_fn [simp]: "slice_fn (reset c w) = slice_fn w"
  by (simp add: reset_def Let_def)

lemma finish_Some:
  assumes "wf_writer w" and "buf w = Some b"
  shows "finish c w = Inr (Bytes (pending w), reset c w)"
proof -
  from assms have b: "length b = len w" "pos w \<le> len w" "slice_fn w"
    by (simp_all add: wf_writer_def)
  have buf1: "(if buf w \<noteq> None \<and> pos w < len w
               then (if pos w \<noteq> 0
                     then thenE (slice2 (reset c w) (buf w) 0 (pos w)) (\<lambda>c. Inr (Some c))
                     else Inr (Some []))
               else Inr (buf w)) = Inr (Some (take (pos w) b))"
    using assms(2) b by (simp add: slice2_def)
  show ?thesis
  proof (cases "bufs w = []")
    case True
    with assms(2) show ?thesis
      unfolding finish_def Let_def buf1 by (simp add: pending_def)
  next
    case False
    let ?n = "length (concat (bufs w))"
    let ?t = "alloc Writer (pos w + ?n)"
    have "0 + ?n \<le> length ?t"
      by simp
    from set_chunks_fits [OF this]
    have sc: "set_chunks ?t (bufs w) 0 = Inr (concat (bufs w) @ drop ?n ?t, ?n)"
      by simp
    have "set_bytes (concat (bufs w) @ drop ?n ?t) (Some (take (pos w) b)) ?n
            = Inr (concat (bufs w) @ take (pos w) b)"
      using b by (simp add: set_bytes_def min_absorb2)
    with False sc assms(2) show ?thesis
      unfolding finish_def Let_def buf1 by (simp add: pending_def fold_length)
  qed
qed

lemma finish_buffer_Some:
  assumes "wf_writer w" and "buf w = Some b"
  shows "finish_buffer c w = Inr (Bytes (pending w), reset c w)"
  using assms by (simp add: finish_buffer_def Let_def pending_def wf_writer_def)

lemma finish_of_Some:
  assumes "wf_writer w" and "buf w \<noteq> None"
  shows "finish_of v c w = Inr (Bytes (pending w), reset c w)"
  using assms finish_Some [of w _ c] finish_buffer_Some [of w _ c]
  by (cases v) (auto simp add: finish_of_def)

lemma encode_eq:
  assumes "helpers_ok h"
  shows "encode h v bsz ops =
     (if ops = [] then (case v of Writer \<Rightarrow> Inr Null | BufferWriter \<Rightarrow> Inl TypeError)
      else thenE (encodings h v ops) (\<lambda>bs. Inr (Bytes bs)))"
proof (cases "ops = []")
  case True
  then show ?thesis
    by (cases v)
      (simp_all add: encode_def finish_of_def finish_def finish_buffer_def new_writer_def
        reset_def Let_def)
next
  case False
  note o = writes_outcome [OF wf_new_writer assms, where v = v and ops = ops and bsz = bsz]
  show ?thesis
  proof (cases "encodings h v ops")
    case (Inl e)
    with o False show ?thesis
      by (simp add: encode_def)
  next
    case (Inr bs)
    with o False obtain w' where
      w': "writes h v bsz ops new_writer = Inr w'" "wf_writer w'"
        "pending w' = pending new_writer @ bs" "buf w' \<noteq> None"
      by auto
    have "pending new_writer = []"
      by (simp add: pending_def new_writer_def)
    with w' finish_of_Some [OF w'(2) w'(4), of v False] False Inr show ?thesis
      by (simp add: encode_def)
  qed
qed

section \<open>Fork, reset and finish keep the invariant\<close>

lemma reset_wf: "wf_writer (reset c w)"
  by (simp add: reset_def wf_writer_def Let_def)

lemma fork_eq:
  assumes "wf_writer w"
  shows "fork w = Inr (if buf w = None \<or> pos w = 0 then w
           else w\<lparr>stack := (bufs w @ [take (pos w) (the (buf w))]) # stack w, bufs := [],
                  buf := (if pos w < len w then Some (drop (pos w) (the (buf w))) else None),
                  len := len w - pos w, pos := 0\<rparr>)"
proof (cases "buf w")
  case None
  then show ?thesis by (simp add: fork_def)
next
  case (Some b)
  with assms have "length b = len w" "pos w \<le> len w" "slice_fn w"
    by (simp_all add: wf_writer_def)
  with Some show ?thesis
    by (simp add: fork_def slice1_def slice2_def)
qed

lemma fork_wf:
  assumes "wf_writer w"
  shows "\<exists>w'. fork w = Inr w' \<and> wf_writer w'"
proof -
  from assms have "wf_writer (w\<lparr>stack := (bufs w @ [take (pos w) (the (buf w))]) # stack w,
      bufs := [],
      buf := (if pos w < len w then Some (drop (pos w) (the (buf w))) else None),
      len := len w - pos w, pos := 0\<rparr>)"
    by (auto simp add: wf_writer_def split: option.splits)
  with assms show ?thesis
    by (simp add: fork_eq [OF assms])
qed

lemma finish_None:
  assumes "wf_writer w" and "buf w = None"
  shows "finish c w = (if bufs w = [] then Inr (Null, reset c w) else Inl TypeError)"
proof (cases "bufs w = []")
  case True
  with assms show ?thesis
    by (simp add: finish_def Let_def)
next
  case False
  let ?n = "length (concat (bufs w))"
  let ?t = "alloc Writer (pos w + ?n)"
  have "0 + ?n \<le> length ?t"
    by simp
  from set_chunks_fits [OF this]
  have sc: "set_chunks ?t (bufs w) 0 = Inr (concat (bufs w) @ drop ?n ?t, ?n)"
    by simp
  from assms False show ?thesis
    unfolding finish_def Let_def by (simp add: fold_length sc set_bytes_def)
qed

lemma finish_buffer_None:
  assumes "wf_writer w" and "buf w = None"
  shows "finish_buffer c w
           = (if bufs w = [] then Inl TypeError else Inr (Bytes (concat (bufs w)), reset c w))"
  using assms by (simp add: finish_buffer_def Let_def wf_writer_def)

lemma finish_of_wf:
  assumes "wf_writer w" and "finish_of v c w = Inr (r, w')"
  shows "wf_writer w'"
proof (cases "buf w")
  case None
  with assms finish_None [OF assms(1) None, of c] finish_buffer_None [OF assms(1) None, of c]
  show ?thesis
    by (cases v) (auto simp add: finish_of_def reset_wf split: if_splits)
next
  case (Some b)
  with assms finish_of_Some [OF assms(1), of v c] show ?thesis
    by (auto simp add: reset_wf)
qed

lemma step_wf:
  assumes "wf_writer w" and "step v bsz a w = Inr (rs, w')"
  shows "wf_writer w'"
proof (cases a)
  case (Write x)
  with assms write_op_appends [OF assms(1), of v bsz x] show ?thesis
    by (auto simp add: appends_def)
next
  case Fork
  with assms fork_wf [OF assms(1)] show ?thesis
    by auto
next
  case (Reset c)
  with assms show ?thesis
    by (auto simp add: reset_wf)
next
  case (Finish c)
  with assms show ?thesis
    by (cases "finish_of v c w") (auto dest: finish_of_wf [OF assms(1)])
qed

text \<open>Every state reached from a new writer satisfies the invariant.\<close>

lemma run_wf:
  assumes "wf_writer w" and "run v bsz ops w = Inr (rs, w')"
  shows "wf_writer w'"
  using assms
proof (induction ops arbitrary: w rs)
  case Nil
  then show ?case by simp
next
  case (Cons a ops)
  from Cons.prems(2) obtain rs1 w1 where s: "step v bsz a w = Inr (rs1, w1)"
    by (cases "step v bsz a w") auto
  with Cons.prems(2) obtain rs2 where "run v bsz ops w1 = Inr (rs2, w')"
    by (cases "run v bsz ops w1") auto
  with Cons.IH [OF step_wf [OF Cons.prems(1) s]] show ?case
    by blast
qed

section \<open>Shape of a varint\<close>

lemma low_no_bit7: "\<not> 127 < (x :: u32) \<Longrightarrow> \<not> bit (ucast x :: byte) 7"
proof
  assume a: "\<not> 127 < x" and b: "bit (ucast x :: byte) 7"
  from a have "unat x < 2 ^ 7"
    by (simp add: word_less_nat_alt)
  then have "take_bit 7 (unat x) = unat x"
    by (simp only: take_bit_nat_eq_self)
  then have "bit (unat x) 7 = bit (take_bit 7 (unat x)) 7"
    by simp
  then have "\<not> bit (unat x) 7"
    unfolding bit_take_bit_iff by simp
  then have "\<not> bit x 7"
    by (simp add: bit_unsigned_iff)
  with b show False
    by (simp add: bit_ucast_iff)
qed

lemma cont_bit7: "bit (ucast ((x :: u32) OR 128) :: byte) 7"
  unfolding bit_ucast_iff bit_or_iff bit_128 by simp

lemma varint_bytes_cont:
  "i < length (varint_bytes x) \<Longrightarrow> bit (varint_bytes x ! i) 7 \<longleftrightarrow> i + 1 < length (varint_bytes x)"
proof (induction x arbitrary: i rule: varint_bytes.induct)
  case (1 val)
  show ?case
  proof (cases "127 < val")
    case True
    then have e: "varint_bytes val = ucast (val OR 128) # varint_bytes (drop_bit 7 val)"
      by (subst varint_bytes.simps) simp
    show ?thesis
    proof (cases i)
      case 0
      then show ?thesis
        using cont_bit7 [of val] varint_bytes_nonempty [of "drop_bit 7 val"] by (simp add: e)
    next
      case (Suc j)
      with "1.prems" have "j < length (varint_bytes (drop_bit 7 val))"
        by (simp add: e)
      from "1.IH" [OF True this] Suc show ?thesis
        by (simp add: e)
    qed
  next
    case False
    then have e: "varint_bytes val = [ucast val]"
      by (subst varint_bytes.simps) simp
    with "1.prems" low_no_bit7 [OF False] show ?thesis
      by simp
  qed
qed

lemma varint_len_le: "(varint_len x :: nat) =
  (if x \<le> 127 then 1 else if x \<le> 16383 then 2 else if x \<le> 2097151 then 3
   else if x \<le> 268435455 then 4 else 5)"
  unfolding varint_len_def word_le_nat_alt word_less_nat_alt
  by simp

lemma varint_minus1: "varint_bytes (-1) = [255, 255, 255, 255, 15]"
  by code_simp

section \<open>A forked scope, finished twice\<close>

text \<open>
  One write, \<open>fork()\<close>, one write, \<open>finish()\<close>, \<open>finish()\<close> on a new writer, for
  either constructor and any buffer size: the first \<open>finish\<close> returns the bytes of the
  inner write; the second returns the bytes of the outer write on a \<open>BufferWriter\<close> and
  throws on a \<open>Writer\<close>.
\<close>

lemma fork_scope_finish:
  "\<exists>w3 w4. thenE (write_op v bsz A new_writer) (\<lambda>w1. thenE (fork w1) (write_op v bsz B)) = Inr w3
     \<and> finish_of v False w3 = Inr (Bytes (encoding B), w4)
     \<and> finish_of v False w4
         = (case v of Writer \<Rightarrow> Inl TypeError
                    | BufferWriter \<Rightarrow> Inr (Bytes (encoding A), reset False w4))"
proof -
  have p0: "pending new_writer = []" "stack new_writer = []"
    by (simp_all add: pending_def new_writer_def)
  from write_op_appends [OF wf_new_writer, of v bsz A] p0 obtain w1 where
    w1: "write_op v bsz A new_writer = Inr w1" "wf_writer w1" "pending w1 = encoding A"
      "stack w1 = []" "buf w1 \<noteq> None" "0 < pos w1"
    by (auto simp add: appends_def)
  define c where "c = bufs w1 @ [take (pos w1) (the (buf w1))]"
  define w2 where "w2 = w1\<lparr>stack := c # stack w1, bufs := [],
      buf := (if pos w1 < len w1 then Some (drop (pos w1) (the (buf w1))) else None),
      len := len w1 - pos w1, pos := 0\<rparr>"
  from w1(5,6) have f: "fork w1 = Inr w2"
    by (auto simp add: fork_eq [OF w1(2)] w2_def c_def)
  with fork_wf [OF w1(2)] have wf2: "wf_writer w2"
    by auto
  have c: "concat c = encoding A" "c \<noteq> []"
    using w1(3,5) by (auto simp add: c_def pending_def)
  have p2: "pending w2 = []" "stack w2 = [c]"
    using w1(4) by (simp_all add: w2_def pending_def)
  from write_op_appends [OF wf2, of v bsz B] p2 obtain w3 where
    w3: "write_op v bsz B w2 = Inr w3" "wf_writer w3" "pending w3 = encoding B"
      "stack w3 = [c]" "buf w3 \<noteq> None"
    by (auto simp add: appends_def)
  define w4 where "w4 = reset False w3"
  from finish_of_Some [OF w3(2,5), of v False] w3(3)
  have f3: "finish_of v False w3 = Inr (Bytes (encoding B), w4)"
    by (simp add: w4_def)
  have w4: "wf_writer w4" "buf w4 = None" "bufs w4 = c"
    using w3(4) by (simp_all add: w4_def reset_wf) (simp_all add: reset_def Let_def)
  from finish_None [OF w4(1,2), of False] finish_buffer_None [OF w4(1,2), of False] w4(3) c
  have "finish_of v False w4
         = (case v of Writer \<Rightarrow> Inl TypeError
                    | BufferWriter \<Rightarrow> Inr (Bytes (encoding A), reset False w4))"
    by (cases v) (simp_all add: finish_of_def)
  with w1(1) f w3(1) f3 show ?thesis
    by simp
qed

section \<open>Evaluation at sample inputs\<close>

lemma helpers_ok_sample: "helpers_ok sample_helpers"
  by (simp add: helpers_ok_def sample_helpers_def)

lemma varint_bytes_300: "varint_bytes 300 = [172, 2]"
  by code_simp

lemma varint_bytes_2: "varint_bytes 2 = [2]"
  by code_simp

lemma replicate_4_8:
  "replicate 4 x = [x, x, x, x]" "replicate 8 x = [x, x, x, x, x, x, x, x]"
  by (simp_all add: numeral_eq_Suc)

lemma word_of_int_mod32: "(word_of_int (value mod 2 ^ 32) :: u32) = word_of_int value"
  by (simp add: word_of_int_eq_iff take_bit_eq_mod)

lemma varint_len_int:
  "varint_len (word_of_int value) =
     (if value mod 2 ^ 32 \<le> 127 then 1 else if value mod 2 ^ 32 \<le> 16383 then 2
      else if value mod 2 ^ 32 \<le> 2097151 then 3
      else if value mod 2 ^ 32 \<le> 268435455 then 4 else 5)"
  unfolding varint_len_def word_less_def uint_word_of_int
  by simp

text \<open>
  With the buffer present and the position 0 a \<open>fork()\<close> pushes nothing, so the
  \<open>finish()\<close> meant for that scope closes the one outside it: the scope opened by the
  second \<open>fork()\<close> below gets \<open>[2]\<close>, and the \<open>finish()\<close> after \<open>uint32(7)\<close> returns
  the bytes of two scopes.
\<close>

lemma fork_noop_loses_scope:
  "run BufferWriter 1024
     [Write (Uint32 1), Fork, Fork, Write (Uint32 2), Finish False, Write (Uint32 7), Finish False]
     new_writer
   = Inr ([Bytes [2], Bytes [1, 7]],
          \<lparr>buf = None, pos = 0, len = 0, bufs = [], stack = [], slice_fn = True\<rparr>)"
  by code_simp

section \<open>The claims\<close>

text \<open>
  C1 (fork isolation): a write A, \<open>fork()\<close>, a write B, \<open>finish()\<close> returns B's bytes, and
  the next \<open>finish()\<close> on the restored outer scope returns A's bytes. On a \<open>Writer\<close>
  with the default buffer size, \<open>uint32(1)\<close>, \<open>fork()\<close>, \<open>uint32(2)\<close>, \<open>finish()\<close>
  returns \<open>[2]\<close> and leaves the chunk \<open>[1]\<close> with no active buffer; the outer
  \<open>finish()\<close> then throws a TypeError at \<open>concat.set(buf, pos)\<close> instead of
  returning \<open>[1]\<close>.
\<close>

theorem fork_isolation_outer_finish_throws:
  "run Writer 1024 [Write (Uint32 1), Fork, Write (Uint32 2), Finish False] new_writer
     = Inr ([Bytes [2]],
            \<lparr>buf = None, pos = 0, len = 0, bufs = [[1]], stack = [], slice_fn = True\<rparr>)
   \<and> finish False \<lparr>buf = None, pos = 0, len = 0, bufs = [[1]], stack = [], slice_fn = True\<rparr>
     = Inl TypeError"
  by code_simp

text \<open>
  C2: \<open>reset(true)\<close> discards the whole fork stack, so that a later \<open>reset()\<close> or
  \<open>finish()\<close> cannot pop a stale chunk list. After \<open>uint32(1)\<close>, \<open>fork()\<close>,
  \<open>reset(true)\<close> the stack still holds the saved chunk list \<open>[[1]]\<close>, and a following
  \<open>reset()\<close> pops it into the current scope.
\<close>

theorem reset_clear_all_keeps_stack:
  "run Writer 1024 [Write (Uint32 1), Fork, Reset True] new_writer
     = Inr ([], \<lparr>buf = None, pos = 0, len = 0, bufs = [], stack = [[[1]]], slice_fn = True\<rparr>)
   \<and> run Writer 1024 [Write (Uint32 1), Fork, Reset True, Reset False] new_writer
     = Inr ([], \<lparr>buf = None, pos = 0, len = 0, bufs = [[1]], stack = [], slice_fn = True\<rparr>)"
  by code_simp

text \<open>
  C3: \<open>finish()\<close> returns a byte sequence for every writer state, the empty one when
  nothing was written, never \<open>null\<close> and never an exception. On a new \<open>Writer\<close>
  \<open>finish()\<close> returns \<open>null\<close>; on a new \<open>BufferWriter\<close> it throws a TypeError.
\<close>

theorem finish_fresh_returns_null:
  "finish False new_writer = Inr (Null, new_writer)
   \<and> finish_buffer False new_writer = Inl TypeError"
  by code_simp

text \<open>
  C4: \<open>Writer\<close> and \<open>BufferWriter\<close> give the same \<open>finish()\<close> results for every sequence
  of operations. For \<open>uint32(1)\<close>, \<open>fork()\<close>, \<open>uint32(2)\<close>, \<open>finish()\<close>, \<open>finish()\<close> the
  \<open>Writer\<close> throws a TypeError in the second \<open>finish()\<close>, while the \<open>BufferWriter\<close>
  returns \<open>[2]\<close> and then \<open>[1]\<close>.
\<close>

theorem writer_and_buffer_writer_differ:
  "run Writer 1024 [Write (Uint32 1), Fork, Write (Uint32 2), Finish False, Finish False]
       new_writer
     = Inl TypeError
   \<and> run BufferWriter 1024 [Write (Uint32 1), Fork, Write (Uint32 2), Finish False, Finish False]
       new_writer
     = Inr ([Bytes [2], Bytes [1]],
            \<lparr>buf = None, pos = 0, len = 0, bufs = [], stack = [], slice_fn = True\<rparr>)"
  by code_simp

text \<open>
  C5 (varint length law): for every 32-bit unsigned value \<open>x\<close>, \<open>uint32(x)\<close> on a writer
  that satisfies the invariant adds exactly 1 byte if \<open>x \<le> 127\<close>, 2 if \<open>x \<le> 16383\<close>,
  3 if \<open>x \<le> 2097151\<close>, 4 if \<open>x \<le> 268435455\<close> and 5 otherwise; bit 7 is set on every
  byte but the last, and the low seven bits of the bytes, least significant group first,
  are \<open>x\<close> in base 128.
\<close>

theorem uint32_varint_length_law:
  fixes x :: u32
  assumes "wf_writer w"
  shows "\<exists>w' bs. write_uint32 v bsz (uint x) w = Inr w' \<and> pending w' = pending w @ bs
           \<and> length bs = (if x \<le> 127 then 1 else if x \<le> 16383 then 2
                           else if x \<le> 2097151 then 3 else if x \<le> 268435455 then 4 else 5)
           \<and> (\<forall>i < length bs. bit (bs ! i) 7 \<longleftrightarrow> i + 1 < length bs)
           \<and> varint_value bs = unat x"
proof -
  from write_uint32_appends [OF assms, of v bsz "uint x"] obtain w' where
    "write_uint32 v bsz (uint x) w = Inr w'" "pending w' = pending w @ varint_bytes x"
    by (auto simp add: appends_def)
  moreover have "length (varint_bytes x) = (if x \<le> 127 then 1 else if x \<le> 16383 then 2
                           else if x \<le> 2097151 then 3 else if x \<le> 268435455 then 4 else 5)"
    by (simp only: varint_bytes_length varint_len_le)
  moreover have "\<forall>i < length (varint_bytes x).
      bit (varint_bytes x ! i) 7 \<longleftrightarrow> i + 1 < length (varint_bytes x)"
    using varint_bytes_cont by blast
  ultimately show ?thesis
    using varint_bytes_value [of x] by blast
qed

theorem uint32_varint_length_law_witness:
  "wf_writer new_writer \<and>
   (\<exists>w' bs. write_uint32 Writer 1024 (uint (300 :: u32)) new_writer = Inr w'
      \<and> pending w' = pending new_writer @ bs \<and> length bs = 2
      \<and> (\<forall>i < length bs. bit (bs ! i) 7 \<longleftrightarrow> i + 1 < length bs)
      \<and> varint_value bs = unat (300 :: u32))"
  using uint32_varint_length_law [OF wf_new_writer, of Writer 1024 300] wf_new_writer
  by simp

text \<open>
  C6: on every writer that satisfies the invariant and for every requested length \<open>n\<close>,
  \<open>expand\<close> seals \<open>buf[0:pos)\<close> as a new last chunk if \<open>pos > 0\<close>, allocates a fresh
  active buffer of size \<open>max n BUFFER_SIZE\<close>, sets the position to 0 and the capacity
  to that size, so that at least \<open>n\<close> bytes are free from the position on; the bytes
  written so far are unchanged.
\<close>

theorem expand_contract:
  assumes "wf_writer w"
  shows "\<exists>w'. expand v bsz w n = Inr w'
           \<and> bufs w' = (if 0 < pos w then bufs w @ [take (pos w) (the (buf w))] else bufs w)
           \<and> buf w' = Some (alloc v (max n bsz)) \<and> length (alloc v (max n bsz)) = max n bsz
           \<and> pos w' = 0 \<and> len w' = max n bsz \<and> pos w' + n \<le> len w'
           \<and> pending w' = pending w \<and> stack w' = stack w \<and> wf_writer w'"
  using expand_wf [OF assms, of v bsz n] by auto

theorem expand_contract_witness:
  "wf_writer \<lparr>buf = Some [7, 0], pos = 1, len = 2, bufs = [[5]], stack = [], slice_fn = True\<rparr> \<and>
   expand Writer 4 \<lparr>buf = Some [7, 0], pos = 1, len = 2, bufs = [[5]], stack = [], slice_fn = True\<rparr> 6
     = Inr \<lparr>buf = Some [0, 0, 0, 0, 0, 0], pos = 0, len = 6, bufs = [[5], [7]], stack = [],
            slice_fn = True\<rparr>"
proof -
  let ?w = "\<lparr>buf = Some [7, 0], pos = 1, len = 2, bufs = [[5 :: byte]], stack = [],
             slice_fn = True\<rparr>"
  have h: "wf_writer ?w"
    by (simp add: wf_writer_def)
  from expand_contract [OF h, of Writer 4 6] obtain w' where
    "expand Writer 4 ?w 6 = Inr w'" "bufs w' = [[5], [7]]" "buf w' = Some (alloc Writer 6)"
    "pos w' = 0" "len w' = 6" "stack w' = []" "wf_writer w'"
    by auto
  then show ?thesis using h
    by (cases w') (simp add: alloc_def wf_writer_def numeral_eq_Suc)
qed

text \<open>
  C7 (zigzag law): the map \<open>(v << 1) ^ (v >> 31)\<close> of \<open>write_sint32\<close> is a bijection on
  32-bit patterns, \<open>unzigzag (zigzag v) = v\<close> for every \<open>v\<close>, and it sends 0 to 0, -1 to 1
  and 1 to 2; \<open>sint32(value)\<close> is \<open>uint32\<close> of the image of \<open>value\<close>.
\<close>

theorem zigzag32_bijection:
  "bij zigzag32 \<and> (\<forall>x. unzigzag32 (zigzag32 x) = x)
   \<and> zigzag32 0 = 0 \<and> zigzag32 (- 1) = 1 \<and> zigzag32 1 = 2
   \<and> write_sint32 v bsz value w = write_uint32 v bsz (uint (zigzag32 (word_of_int value))) w"
proof -
  have "bij zigzag32"
    by (rule bij_betw_byWitness [where f' = unzigzag32])
      (auto simp add: unzigzag32_zigzag32 zigzag32_unzigzag32)
  moreover have "zigzag32 0 = 0" "zigzag32 (- 1) = 1" "zigzag32 1 = 2"
    by (simp_all add: zigzag32_def)
  ultimately show ?thesis
    by (simp add: unzigzag32_zigzag32 write_sint32_def write_uint32_def)
qed




text \<open>
  C9 (chunk-size independence): for any sequence of writes on a new writer, with helpers
  that satisfy \<open>helpers_ok\<close>, the result of \<open>finish()\<close> is the same for every value of
  \<open>Writer.BUFFER_SIZE\<close>; for a non-empty sequence it is the bytes of the writes in
  order, or the exception of the first write whose 64-bit helper throws.
\<close>

theorem chunk_size_independence:
  assumes "helpers_ok h"
  shows "encode h v bsz1 ops = encode h v bsz2 ops
         \<and> (ops \<noteq> [] \<longrightarrow>
              encode h v bsz1 ops = thenE (encodings h v ops) (\<lambda>bs. Inr (Bytes bs)))"
  by (simp add: encode_eq [OF assms])

theorem chunk_size_independence_witness:
  "helpers_ok sample_helpers
   \<and> encode sample_helpers Writer 4 [Plain (Uint32 300), Fixed64 5, FloatOp 1, StringOp [7, 8]]
       = encode sample_helpers Writer 1024
           [Plain (Uint32 300), Fixed64 5, FloatOp 1, StringOp [7, 8]]
   \<and> encode sample_helpers Writer 4 [Plain (Uint32 300), Fixed64 5, FloatOp 1, StringOp [7, 8]]
       = Inr (Bytes [172, 2, 5, 5, 5, 5, 5, 5, 5, 5, 1, 1, 1, 1, 2, 7, 8])"
proof -
  let ?ops = "[Plain (Uint32 300), Fixed64 5, FloatOp 1, StringOp [7, 8]]"
  note t = chunk_size_independence [OF helpers_ok_sample, of Writer 4 ?ops 1024]
  have e: "encodings sample_helpers Writer ?ops
             = Inr [172, 2, 5, 5, 5, 5, 5, 5, 5, 5, 1, 1, 1, 1, 2, 7, 8]"
    by (simp add: sample_helpers_def varint_bytes_300 varint_bytes_2 replicate_4_8)
  have "encode sample_helpers Writer 4 ?ops
          = Inr (Bytes [172, 2, 5, 5, 5, 5, 5, 5, 5, 5, 1, 1, 1, 1, 2, 7, 8])"
    using t [THEN conjunct2] unfolding e by simp
  with t [THEN conjunct1] helpers_ok_sample show ?thesis
    by (intro conjI)
qed

text \<open>
  C10: \<open>uint32\<close>, and \<open>int32\<close>, which is the same function, encode the argument modulo
  \<open>2 ^ 32\<close>: on a writer that satisfies the invariant they do what \<open>uint32\<close> does for
  \<open>value mod 2 ^ 32\<close>; the bytes added are a varint (bit 7 set on every byte but the
  last) whose value is \<open>value mod 2 ^ 32\<close> and whose length follows the thresholds, at
  most 5 bytes; for \<open>- 1\<close> they are the five bytes \<open>ff ff ff ff 0f\<close> of 4294967295.
\<close>

theorem uint32_coerces_mod_2_32:
  assumes "wf_writer w"
  shows "\<exists>w' bs. write_uint32 v bsz value w = Inr w' \<and> write_int32 v bsz value w = Inr w'
           \<and> write_uint32 v bsz (value mod 2 ^ 32) w = Inr w'
           \<and> pending w' = pending w @ bs
           \<and> int (varint_value bs) = value mod 2 ^ 32
           \<and> (\<forall>i < length bs. bit (bs ! i) 7 \<longleftrightarrow> i + 1 < length bs)
           \<and> length bs =
               (if value mod 2 ^ 32 \<le> 127 then 1 else if value mod 2 ^ 32 \<le> 16383 then 2
                else if value mod 2 ^ 32 \<le> 2097151 then 3
                else if value mod 2 ^ 32 \<le> 268435455 then 4 else 5)
           \<and> length bs \<le> 5
           \<and> (value = - 1 \<longrightarrow> bs = [255, 255, 255, 255, 15])"
proof -
  let ?bs = "varint_bytes (word_of_int value)"
  from write_uint32_appends [OF assms, of v bsz "value"] obtain w' where
    w': "write_uint32 v bsz value w = Inr w'" "pending w' = pending w @ ?bs"
    by (auto simp add: appends_def)
  have "write_uint32 v bsz (value mod 2 ^ 32) w = write_uint32 v bsz value w"
    by (simp only: write_uint32_def word_of_int_mod32)
  with w'(1) have m: "write_uint32 v bsz (value mod 2 ^ 32) w = Inr w'"
    by simp
  have "int (varint_value ?bs) = value mod 2 ^ 32"
    by (simp add: varint_bytes_value uint_word_of_int)
  moreover have "\<forall>i < length ?bs. bit (?bs ! i) 7 \<longleftrightarrow> i + 1 < length ?bs"
    using varint_bytes_cont by blast
  moreover have "length ?bs =
               (if value mod 2 ^ 32 \<le> 127 then 1 else if value mod 2 ^ 32 \<le> 16383 then 2
                else if value mod 2 ^ 32 \<le> 2097151 then 3
                else if value mod 2 ^ 32 \<le> 268435455 then 4 else 5)"
    by (simp only: varint_bytes_length varint_len_int)
  moreover have "length ?bs \<le> 5"
    by (simp add: varint_bytes_length varint_len_def)
  moreover have "value = - 1 \<longrightarrow> ?bs = [255, 255, 255, 255, 15]"
    using varint_minus1 by simp
  ultimately show ?thesis
    using w' m by (auto simp add: write_int32_def)
qed

theorem uint32_coerces_mod_2_32_witness:
  "wf_writer new_writer \<and>
   (\<exists>w' bs. write_uint32 Writer 1024 (- 1) new_writer = Inr w'
      \<and> write_int32 Writer 1024 (- 1) new_writer = Inr w'
      \<and> write_uint32 Writer 1024 4294967295 new_writer = Inr w'
      \<and> pending w' = pending new_writer @ bs \<and> int (varint_value bs) = 4294967295
      \<and> (\<forall>i < length bs. bit (bs ! i) 7 \<longleftrightarrow> i + 1 < length bs)
      \<and> length bs = 5
      \<and> bs = [255, 255, 255, 255, 15])"
  using uint32_coerces_mod_2_32 [OF wf_new_writer, of Writer 1024 "- 1"] wf_new_writer
  by simp

end
